theory Spec2Isabelle
  imports Main "HOL-Library.AList" "HOL-Library.Sublist"
begin

section \<open>Data model (structs.py)\<close>

text \<open>
  Python strings are modelled as \<^typ>\<open>string\<close>; a \<^typ>\<open>char\<close> stands for a code point
  below 256.  A compiled \<^verbatim>\<open>re.Pattern\<close> is modelled by what \<^verbatim>\<open>regex.search(value)\<close>
  returns: \<open>None\<close> when nothing matches, otherwise \<^verbatim>\<open>group()\<close> together with
  \<^verbatim>\<open>groups()\<close>, where a group that did not take part in the match is \<open>None\<close>.
\<close>

type_synonym regex = "string \<Rightarrow> (string \<times> string option list) option"

record category =
  cat_id :: string
  cat_name :: string
  cat_priority :: int

record imply =
  imply_name :: string
  imply_confidence :: int

record exclude =
  exclude_name :: string

record pattern =
  p_value :: string
  p_regex :: regex
  p_confidence :: int
  p_version :: string
  p_key :: string

text \<open>
  A Python \<^verbatim>\<open>dict\<close> is an association list in insertion order; keys are looked up with
  \<^const>\<open>map_of\<close> and stored with \<^const>\<open>AList.update\<close>, which keeps the position of a key
  that is already present, as assignment to a \<^verbatim>\<open>dict\<close> does.
\<close>

type_synonym 'v dict = "(string \<times> 'v) list"

record technology =
  name :: string
  categories :: "category list"
  url :: "pattern list"
  headers :: "pattern list dict"
  cookies :: "pattern list dict"
  html :: "pattern list"
  meta :: "pattern list dict"
  scripts :: "pattern list"
  js :: "pattern list dict"
  implies :: "imply list"
  excludes :: "exclude list"
  icon :: string
  website :: string
  cpe :: string

record patternmatch =
  pm_technology :: technology
  pm_pattern :: pattern
  pm_version :: string

record techmatch =
  tm_technology :: technology
  tm_confidence :: int
  tm_version :: string

text \<open>\<^verbatim>\<open>TechMatch.__eq__\<close>: the technology names are compared, nothing else.\<close>

definition TechMatch_eq :: "techmatch \<Rightarrow> techmatch \<Rightarrow> bool" where
  "TechMatch_eq s o' = (name (tm_technology s) = name (tm_technology o'))"

section \<open>Strings\<close>

text \<open>
  The operations of Python's \<^verbatim>\<open>str\<close> that the engine uses, on code points below 256:
  \<^verbatim>\<open>strip()\<close> removes the white space of \<^verbatim>\<open>str.isspace\<close> from both ends,
  \<^verbatim>\<open>lower()\<close> maps the upper-case letters of ASCII and Latin-1 to lower case,
  \<^verbatim>\<open>replace(old, new)\<close> replaces the non-overlapping occurrences of \<open>old\<close> from the left,
  and \<open>str_of_nat\<close> is the decimal numeral that \<^verbatim>\<open>format\<close> writes for an index.
\<close>

definition bs :: char where
  "bs = CHR 0x5C"

definition is_space :: "char \<Rightarrow> bool" where
  "is_space c = (of_char c \<in> {9, 10, 11, 12, 13, 28, 29, 30, 31, 32, 133, 160 :: nat})"

definition strip :: "string \<Rightarrow> string" where
  "strip s = rev (dropWhile is_space (rev (dropWhile is_space s)))"

definition lower_char :: "char \<Rightarrow> char" where
  "lower_char c =
     (let n = of_char c :: nat
      in if (65 \<le> n \<and> n \<le> 90) \<or> (192 \<le> n \<and> n \<le> 222 \<and> n \<noteq> 215)
         then char_of (n + 32) else c)"

definition lower :: "string \<Rightarrow> string" where
  "lower s = map lower_char s"

fun str_of_nat :: "nat \<Rightarrow> string" where
  "str_of_nat n =
     (if n < 10 then [''0123456789'' ! n]
      else str_of_nat (n div 10) @ [''0123456789'' ! (n mod 10)])"

declare str_of_nat.simps [simp del]

function replace_nonempty :: "string \<Rightarrow> string \<Rightarrow> string \<Rightarrow> string" where
  "replace_nonempty old new [] = []"
| "replace_nonempty old new (c # cs) =
     (if old \<noteq> [] \<and> prefix old (c # cs)
      then new @ replace_nonempty old new (drop (length old) (c # cs))
      else c # replace_nonempty old new cs)"
  by pat_completeness auto
termination
  by (relation "measure (\<lambda>(old, new, s). length s)") (auto simp: neq_Nil_conv)

definition replace :: "string \<Rightarrow> string \<Rightarrow> string \<Rightarrow> string" where
  "replace old new s =
     (if old = [] then new @ concat (map (\<lambda>c. c # new) s) else replace_nonempty old new s)"

section \<open>Version resolver (match.py, resolve_version)\<close>

text \<open>
  \<^verbatim>\<open>re.search("\\\\{}\\?([^:]+):(.*)$".format(index), version)\<close>.  With \<open>marker\<close> the text
  \<^verbatim>\<open>\index?\<close>, the expression matches at a position where \<open>marker\<close> starts, is followed by at
  least one character other than a colon and then a colon, and the rest holds no newline
  except as the last character of the string (\<^verbatim>\<open>.\<close> does not match a newline, and \<^verbatim>\<open>$\<close>
  matches at the end or before a final newline).  The result is \<^verbatim>\<open>group()\<close> with the two
  groups; the search returns the leftmost match.
\<close>

definition ternary_at :: "string \<Rightarrow> string \<Rightarrow> (string \<times> string \<times> string) option" where
  "ternary_at marker s =
     (if \<not> prefix marker s then None
      else let r = drop (length marker) s;
               t = takeWhile (\<lambda>c. c \<noteq> CHR '':'') r;
               rest = dropWhile (\<lambda>c. c \<noteq> CHR '':'') r
           in if t = [] \<or> rest = [] then None
              else let f = tl rest;
                       f1 = takeWhile (\<lambda>c. c \<noteq> CHR 0x0A) f;
                       f2 = dropWhile (\<lambda>c. c \<noteq> CHR 0x0A) f
                   in if f2 = [] \<or> f2 = [CHR 0x0A]
                      then Some (marker @ t @ [CHR '':''] @ f1, t, f1)
                      else None)"

fun ternary_search :: "string \<Rightarrow> string \<Rightarrow> (string \<times> string \<times> string) option" where
  "ternary_search marker [] = ternary_at marker []"
| "ternary_search marker (c # cs) =
     (case ternary_at marker (c # cs) of
        Some m \<Rightarrow> Some m
      | None \<Rightarrow> ternary_search marker cs)"

text \<open>
  The loop over \<^verbatim>\<open>enumerate(matches)\<close>.  \<open>version\<close> is the template, \<open>resolved\<close> the working
  string.  A group is \<open>None\<close> when it did not take part in the match; \<^verbatim>\<open>if match\<close> holds for a
  group that is neither \<open>None\<close> nor empty.
\<close>

definition truthy :: "string option \<Rightarrow> bool" where
  "truthy m = (case m of None \<Rightarrow> False | Some v \<Rightarrow> v \<noteq> [])"

fun resolve_version_loop :: "string \<Rightarrow> nat \<Rightarrow> string option list \<Rightarrow> string \<Rightarrow> string" where
  "resolve_version_loop version index [] resolved = resolved"
| "resolve_version_loop version index (match # matches) resolved =
     (let ternary = ternary_search (bs # str_of_nat index @ ''?'') version;
          resolved' = (case ternary of
                         Some (t0, t1, t2) \<Rightarrow> replace t0 (if truthy match then t1 else t2) version
                       | None \<Rightarrow> resolved);
          resolved'' = replace (bs # str_of_nat index)
                         (case match of None \<Rightarrow> [] | Some m \<Rightarrow> m) (strip resolved')
      in resolve_version_loop version (Suc index) matches resolved'')"

definition resolve_version :: "string \<Rightarrow> regex \<Rightarrow> string \<Rightarrow> string" where
  "resolve_version version regex val =
     (if version = [] then version
      else (case regex val of
              None \<Rightarrow> version
            | Some (g0, groups) \<Rightarrow> resolve_version_loop version 0 (Some g0 # groups) version))"

section \<open>Signal matcher (match.py)\<close>

text \<open>
  The attribute names that \<^verbatim>\<open>match_str\<close>, \<^verbatim>\<open>match_list\<close> and \<^verbatim>\<open>match_pairs\<close> accept for
  \<^verbatim>\<open>field\<close>, with \<^verbatim>\<open>tech[field]\<close>.
\<close>

datatype list_field = Url | Html | Scripts

datatype pairs_field = Headers | Cookies | Meta | Js

fun tech_list :: "technology \<Rightarrow> list_field \<Rightarrow> pattern list" where
  "tech_list t Url = url t"
| "tech_list t Html = html t"
| "tech_list t Scripts = scripts t"

fun tech_pairs :: "technology \<Rightarrow> pairs_field \<Rightarrow> pattern list dict" where
  "tech_pairs t Headers = headers t"
| "tech_pairs t Cookies = cookies t"
| "tech_pairs t Meta = meta t"
| "tech_pairs t Js = js t"

fun match_patterns :: "pattern list \<Rightarrow> technology \<Rightarrow> string \<Rightarrow> patternmatch list" where
  "match_patterns [] technology val = []"
| "match_patterns (pattern # patterns) technology val =
     (case p_regex pattern val of
        None \<Rightarrow> match_patterns patterns technology val
      | Some m \<Rightarrow>
          \<lparr>pm_technology = technology, pm_pattern = pattern,
           pm_version = resolve_version (p_version pattern) (p_regex pattern) val\<rparr>
          # match_patterns patterns technology val)"

definition match_str :: "technology \<Rightarrow> list_field \<Rightarrow> string \<Rightarrow> patternmatch list" where
  "match_str tech field val = match_patterns (tech_list tech field) tech val"

definition match_list :: "technology \<Rightarrow> list_field \<Rightarrow> string list \<Rightarrow> patternmatch list" where
  "match_list tech field vals =
     concat (map (\<lambda>val. match_patterns (tech_list tech field) tech val) vals)"

text \<open>
  \<^verbatim>\<open>match_pairs\<close>: for the field \<^verbatim>\<open>cookies\<close> the supplied keys are lower-cased into a new
  dictionary, a later key overwriting an earlier one with the same lower-case form; for the
  other fields the supplied dictionary is used as it is.
\<close>

definition pairs_local :: "pairs_field \<Rightarrow> string list dict \<Rightarrow> string list dict" where
  "pairs_local field pairs =
     (if field = Cookies then fold (\<lambda>(k, vs) d. AList.update (lower k) vs d) pairs []
      else pairs)"

definition match_pairs :: "technology \<Rightarrow> pairs_field \<Rightarrow> string list dict \<Rightarrow> patternmatch list" where
  "match_pairs tech field pairs =
     concat (map (\<lambda>(key, patterns).
        concat (map (\<lambda>val. match_patterns patterns tech val)
          (case map_of (pairs_local field pairs) key of None \<Rightarrow> [] | Some vals \<Rightarrow> vals)))
       (tech_pairs tech field))"

definition match_url :: "technology \<Rightarrow> string \<Rightarrow> patternmatch list" where
  "match_url technology u = match_str technology Url u"

definition match_html :: "technology \<Rightarrow> string \<Rightarrow> patternmatch list" where
  "match_html technology h = match_str technology Html h"

definition match_scripts :: "technology \<Rightarrow> string list \<Rightarrow> patternmatch list" where
  "match_scripts technology ss = match_list technology Scripts ss"

definition match_js_vars :: "technology \<Rightarrow> string list dict \<Rightarrow> patternmatch list" where
  "match_js_vars technology js_vars = match_pairs technology Js js_vars"

definition match_cookies :: "technology \<Rightarrow> string list dict \<Rightarrow> patternmatch list" where
  "match_cookies technology cs = match_pairs technology Cookies cs"

definition match_metas :: "technology \<Rightarrow> string list dict \<Rightarrow> patternmatch list" where
  "match_metas technology ms = match_pairs technology Meta ms"

definition match_headers :: "technology \<Rightarrow> string list dict \<Rightarrow> patternmatch list" where
  "match_headers technology hs = match_pairs technology Headers hs"

text \<open>
  \<^verbatim>\<open>match_all\<close>.  Each signal is optional (\<open>None\<close> is Python's \<^verbatim>\<open>None\<close>); \<^verbatim>\<open>if url:\<close>
  and its siblings hold for a value that is neither \<^verbatim>\<open>None\<close> nor empty, and only then is the
  field's function appended to \<^verbatim>\<open>match_funcs\<close>.
\<close>

definition match_func ::
  "(technology \<Rightarrow> 'a list \<Rightarrow> patternmatch list) \<Rightarrow> 'a list option \<Rightarrow>
   (technology \<Rightarrow> patternmatch list) list" where
  "match_func f signal =
     (case signal of None \<Rightarrow> [] | Some v \<Rightarrow> if v = [] then [] else [\<lambda>techno. f techno v])"

definition match_all ::
  "technology dict \<Rightarrow> string option \<Rightarrow> string option \<Rightarrow> string list option \<Rightarrow>
   string list dict option \<Rightarrow> string list dict option \<Rightarrow> string list dict option \<Rightarrow>
   string list dict option \<Rightarrow> patternmatch list" where
  "match_all technologies url_s html_s scripts_s cookies_s metas_s headers_s js_vars_s =
     (let match_funcs =
            match_func match_url url_s @ match_func match_headers headers_s @
            match_func match_cookies cookies_s @ match_func match_html html_s @
            match_func match_metas metas_s @ match_func match_scripts scripts_s @
            match_func match_js_vars js_vars_s
      in concat (map (\<lambda>technology. concat (map (\<lambda>func. func technology) match_funcs))
                  (map snd technologies)))"

text \<open>
  For the refinement claim (C8), following the spec's words: the matcher that does not
  short-circuit.  A signal that was supplied is evaluated against every technology's patterns
  for its field, empty or not; a signal that is absent (\<open>None\<close>) has nothing to evaluate.
\<close>

definition match_func_unguarded ::
  "(technology \<Rightarrow> 'a list \<Rightarrow> patternmatch list) \<Rightarrow> 'a list option \<Rightarrow>
   (technology \<Rightarrow> patternmatch list) list" where
  "match_func_unguarded f signal =
     (case signal of None \<Rightarrow> [] | Some v \<Rightarrow> [\<lambda>techno. f techno v])"

definition match_all_unguarded ::
  "technology dict \<Rightarrow> string option \<Rightarrow> string option \<Rightarrow> string list option \<Rightarrow>
   string list dict option \<Rightarrow> string list dict option \<Rightarrow> string list dict option \<Rightarrow>
   string list dict option \<Rightarrow> patternmatch list" where
  "match_all_unguarded technologies url_s html_s scripts_s cookies_s metas_s headers_s js_vars_s =
     (let match_funcs =
            match_func_unguarded match_url url_s @ match_func_unguarded match_headers headers_s @
            match_func_unguarded match_cookies cookies_s @ match_func_unguarded match_html html_s @
            match_func_unguarded match_metas metas_s @ match_func_unguarded match_scripts scripts_s @
            match_func_unguarded match_js_vars js_vars_s
      in concat (map (\<lambda>technology. concat (map (\<lambda>func. func technology) match_funcs))
                  (map snd technologies)))"

section \<open>PatternMatch equality and the set of hits (structs.py, match.py)\<close>

text \<open>
  \<^verbatim>\<open>PatternMatch.__eq__\<close> as the source has it: the technology names of the two operands are
  compared, and the pattern's key and value are compared with themselves.
  \<^verbatim>\<open>PatternMatch.__hash__\<close> hashes the triple of technology name, pattern key and pattern
  value; the hash of a tuple of strings is a parameter of the model.
\<close>

definition PatternMatch_eq :: "patternmatch \<Rightarrow> patternmatch \<Rightarrow> bool" where
  "PatternMatch_eq s o' =
     (name (pm_technology s) = name (pm_technology o') \<and>
      p_key (pm_pattern s) = p_key (pm_pattern s) \<and>
      p_value (pm_pattern s) = p_value (pm_pattern s))"

definition PatternMatch_key :: "patternmatch \<Rightarrow> string \<times> string \<times> string" where
  "PatternMatch_key s = (name (pm_technology s), p_key (pm_pattern s), p_value (pm_pattern s))"

type_synonym hash_fn = "string \<times> string \<times> string \<Rightarrow> int"

definition PatternMatch_hash :: "hash_fn \<Rightarrow> patternmatch \<Rightarrow> int" where
  "PatternMatch_hash h s = h (PatternMatch_key s)"

text \<open>
  \<^verbatim>\<open>list(set(pattern_matches))\<close>.  An element is added to a set unless the set holds an
  entry with the same hash that is equal to it.  The order in which a set is iterated is
  fixed by the hash table; it is modelled by an arbitrary ranking of the hashed triples.
\<close>

definition set_add :: "hash_fn \<Rightarrow> patternmatch \<Rightarrow> patternmatch list \<Rightarrow> patternmatch list" where
  "set_add h x entries =
     (if list_ex (\<lambda>entry. PatternMatch_hash h entry = PatternMatch_hash h x \<and>
                          PatternMatch_eq entry x) entries
      then entries else entries @ [x])"

definition list_of_set ::
  "hash_fn \<Rightarrow> (string \<times> string \<times> string \<Rightarrow> nat) \<Rightarrow> patternmatch list \<Rightarrow> patternmatch list" where
  "list_of_set h rank pattern_matches =
     sort_key (\<lambda>pm. rank (PatternMatch_key pm)) (fold (set_add h) pattern_matches [])"

section \<open>Confidence aggregator (match.py, extract_techno_matches)\<close>

text \<open>
  \<^verbatim>\<open>pattern_match not in techno_matches\<close> compares a \<^verbatim>\<open>TechMatch\<close> of the list with the
  \<^verbatim>\<open>PatternMatch\<close>; either \<^verbatim>\<open>__eq__\<close> compares the technology names.
  \<^verbatim>\<open>pt_match != pattern_match\<close> is the negation of \<^verbatim>\<open>PatternMatch.__eq__\<close>.
\<close>

definition TechMatch_eq_pm :: "techmatch \<Rightarrow> patternmatch \<Rightarrow> bool" where
  "TechMatch_eq_pm s o' = (name (tm_technology s) = name (pm_technology o'))"

fun aggregate :: "patternmatch \<Rightarrow> patternmatch list \<Rightarrow> int \<times> string \<Rightarrow> int \<times> string" where
  "aggregate pattern_match [] (confidence, version) = (confidence, version)"
| "aggregate pattern_match (pt_match # rest) (confidence, version) =
     (if \<not> PatternMatch_eq pt_match pattern_match
      then aggregate pattern_match rest (confidence, version)
      else aggregate pattern_match rest
             (min 100 (confidence + p_confidence (pm_pattern pt_match)),
              if length version < length (pm_version pt_match) \<and> length (pm_version pt_match) \<le> 10
              then pm_version pt_match else version))"

fun extract_loop :: "patternmatch list \<Rightarrow> patternmatch list \<Rightarrow> techmatch list \<Rightarrow> techmatch list" where
  "extract_loop pattern_matches [] techno_matches = techno_matches"
| "extract_loop pattern_matches (pattern_match # rest) techno_matches =
     (if list_ex (\<lambda>item. TechMatch_eq_pm item pattern_match) techno_matches
      then extract_loop pattern_matches rest techno_matches
      else (case aggregate pattern_match pattern_matches (0, []) of
              (confidence, version) \<Rightarrow>
                extract_loop pattern_matches rest
                  (techno_matches @
                   [\<lparr>tm_technology = pm_technology pattern_match,
                     tm_confidence = confidence, tm_version = version\<rparr>])))"

definition extract_techno_matches :: "patternmatch list \<Rightarrow> techmatch list" where
  "extract_techno_matches pattern_matches = extract_loop pattern_matches pattern_matches []"

text \<open>
  What the aggregator computes for one technology, in closed form: \<open>hits_of n\<close> are the entries
  of the list whose technology is named \<open>n\<close>, in list order; \<open>running_confidence\<close> adds their
  declared confidences, clamping at each step; \<open>running_version\<close> keeps the running choice of
  version; \<open>candidates\<close> are their versions that are not empty and at most 10 long;
  \<open>new_match\<close> is the \<^verbatim>\<open>TechMatch\<close> appended for a hit.
\<close>

definition hits_of :: "string \<Rightarrow> patternmatch list \<Rightarrow> patternmatch list" where
  "hits_of n pattern_matches = filter (\<lambda>pt. name (pm_technology pt) = n) pattern_matches"

definition running_confidence :: "patternmatch list \<Rightarrow> int \<Rightarrow> int" where
  "running_confidence hits c = fold (\<lambda>pt acc. min 100 (acc + p_confidence (pm_pattern pt))) hits c"

definition running_version :: "patternmatch list \<Rightarrow> string \<Rightarrow> string" where
  "running_version hits v =
     fold (\<lambda>pt acc. if length acc < length (pm_version pt) \<and> length (pm_version pt) \<le> 10
                     then pm_version pt else acc) hits v"

definition candidates :: "patternmatch list \<Rightarrow> string list" where
  "candidates hits = filter (\<lambda>v. v \<noteq> [] \<and> length v \<le> 10) (map pm_version hits)"

definition new_match :: "patternmatch list \<Rightarrow> patternmatch \<Rightarrow> techmatch" where
  "new_match pattern_matches pm =
     \<lparr>tm_technology = pm_technology pm,
      tm_confidence = fst (aggregate pm pattern_matches (0, [])),
      tm_version = snd (aggregate pm pattern_matches (0, []))\<rparr>"

section \<open>Exclusion resolver (match.py, resolve_excludes)\<close>

text \<open>
  The \<^verbatim>\<open>while True\<close> loop pops the head of the remaining list, appends it to the result and
  filters the remaining list; \<^verbatim>\<open>pop(0)\<close> on the empty list raises \<^verbatim>\<open>IndexError\<close>, which ends
  the loop.
\<close>

function resolve_excludes_loop :: "techmatch list \<Rightarrow> techmatch list \<Rightarrow> techmatch list" where
  "resolve_excludes_loop [] techn_excls = techn_excls"
| "resolve_excludes_loop (techno_match # techno_matches) techn_excls =
     (let techn_excls' = techn_excls @ [techno_match];
          excludes' = map exclude_name (excludes (tm_technology techno_match));
          techno_matches' = filter (\<lambda>tm. name (tm_technology tm) \<notin> set excludes') techno_matches
      in resolve_excludes_loop techno_matches' techn_excls')"
  by pat_completeness auto
termination
  by (relation "measure (\<lambda>(techno_matches, techn_excls). length techno_matches)")
     (auto simp: less_Suc_eq_le)

definition resolve_excludes :: "techmatch list \<Rightarrow> techmatch list" where
  "resolve_excludes techno_matches = resolve_excludes_loop techno_matches []"

definition excluded_by :: "techmatch \<Rightarrow> techmatch \<Rightarrow> bool" where
  "excluded_by kept tm =
     (name (tm_technology tm) \<in> set (map exclude_name (excludes (tm_technology kept))))"

section \<open>Implication resolver (match.py, resolve_implies)\<close>

text \<open>
  \<^verbatim>\<open>technologies[imply.name]\<close> raises \<^verbatim>\<open>KeyError\<close> when the name is not a key of the rule
  set.  \<^verbatim>\<open>_resolve_implies_inner\<close> calls itself once for each level of implication and
  handles no exception, so the interpreter raises \<^verbatim>\<open>RecursionError\<close> when the levels
  outnumber the frames that its recursion limit leaves.  Either exception leaves every
  enclosing loop, so the resolver returns \<open>Inl\<close> of it.
\<close>

datatype error = KeyError string | RecursionError

text \<open>
  The list comprehension of \<^verbatim>\<open>_resolve_implies_inner\<close>: the implied matches are all built,
  in declaration order, before the first of them is visited.
\<close>

fun implied_matches :: "technology dict \<Rightarrow> techmatch \<Rightarrow> imply list \<Rightarrow> error + techmatch list" where
  "implied_matches technologies techno_match [] = Inr []"
| "implied_matches technologies techno_match (imply # rest) =
     (case map_of technologies (imply_name imply) of
        None \<Rightarrow> Inl (KeyError (imply_name imply))
      | Some t \<Rightarrow>
          (case implied_matches technologies techno_match rest of
             Inl e \<Rightarrow> Inl e
           | Inr ims \<Rightarrow>
               Inr (\<lparr>tm_technology = t,
                     tm_confidence = min (imply_confidence imply) (tm_confidence techno_match),
                     tm_version = []\<rparr> # ims)))"

text \<open>
  \<^verbatim>\<open>_resolve_implies_inner\<close> appends to the list it is given; the model returns the new list.
  \<open>resolve_implies_each\<close> is the loop \<^verbatim>\<open>for t in ts: _resolve_implies_inner(techno_impls, t,
  technologies)\<close>, which the source runs over the implied matches and, in
  \<^verbatim>\<open>resolve_implies\<close>, over the input matches.  \<^verbatim>\<open>techno_match not in techno_impls\<close>
  compares with \<^verbatim>\<open>TechMatch.__eq__\<close>.

  The first argument counts the activations of \<^verbatim>\<open>_resolve_implies_inner\<close> that may still be
  nested inside one another: the recursion limit of the interpreter less the frames in use
  when the call is made.  The loop runs in the frame of its caller, so it hands the same
  count to every call it makes; an activation uses one frame, so the loop over the implied
  matches gets one less.  A call for which no frame is left raises \<^verbatim>\<open>RecursionError\<close>
  before it looks at its arguments.
\<close>

fun resolve_implies_inner :: "nat \<Rightarrow> technology dict \<Rightarrow> techmatch list \<Rightarrow> techmatch \<Rightarrow> error + techmatch list"
  and resolve_implies_each :: "nat \<Rightarrow> technology dict \<Rightarrow> techmatch list \<Rightarrow> techmatch list \<Rightarrow> error + techmatch list"
where
  "resolve_implies_inner 0 technologies techno_impls techno_match = Inl RecursionError"
| "resolve_implies_inner (Suc frames) technologies techno_impls techno_match =
     (if list_ex (\<lambda>item. TechMatch_eq item techno_match) techno_impls then Inr techno_impls
      else (case implied_matches technologies techno_match (implies (tm_technology techno_match)) of
              Inl e \<Rightarrow> Inl e
            | Inr implies' \<Rightarrow>
                resolve_implies_each frames technologies (techno_impls @ [techno_match]) implies'))"
| "resolve_implies_each frames technologies techno_impls [] = Inr techno_impls"
| "resolve_implies_each frames technologies techno_impls (techno_match # rest) =
     (case resolve_implies_inner frames technologies techno_impls techno_match of
        Inl e \<Rightarrow> Inl e
      | Inr techno_impls' \<Rightarrow> resolve_implies_each frames technologies techno_impls' rest)"

text \<open>
  \<^verbatim>\<open>resolve_implies\<close>, called when the recursion limit leaves room for \<open>frames\<close> nested
  activations of \<^verbatim>\<open>_resolve_implies_inner\<close>.
\<close>

definition resolve_implies :: "nat \<Rightarrow> techmatch list \<Rightarrow> technology dict \<Rightarrow> error + techmatch list" where
  "resolve_implies frames techno_matches technologies =
     resolve_implies_each frames technologies [] techno_matches"

declare resolve_implies_inner.simps [simp del]

definition tm_names :: "techmatch list \<Rightarrow> string set" where
  "tm_names xs = (\<lambda>tm. name (tm_technology tm)) ` set xs"




text \<open>
  \<open>derived_from technologies parent tm\<close>: \<open>tm\<close> is what \<^verbatim>\<open>_resolve_implies_inner\<close> builds for
  one of the \<^verbatim>\<open>implies\<close> entries of \<open>parent\<close>'s technology.
  \<open>implies_to technologies tm n\<close>: expanding \<open>tm\<close> visits a match of a technology named \<open>n\<close>.
  \<open>expanded\<close>: every technology the entry at a position implies is recorded in the list.
  \<open>first_reached_inv\<close> says of a result list that each entry is one of the matches in \<open>S\<close>,
  or is derived from an entry before it, its parent, and no entry between them implies the
  same technology: the parent is the match from which the entry was first reached.
\<close>

definition derived_from :: "technology dict \<Rightarrow> techmatch \<Rightarrow> techmatch \<Rightarrow> bool" where
  "derived_from technologies parent tm =
     list_ex (\<lambda>imply.
        map_of technologies (imply_name imply) = Some (tm_technology tm) \<and>
        tm_confidence tm = min (imply_confidence imply) (tm_confidence parent) \<and>
        tm_version tm = [])
      (implies (tm_technology parent))"

definition implies_to :: "technology dict \<Rightarrow> techmatch \<Rightarrow> string \<Rightarrow> bool" where
  "implies_to technologies tm n =
     list_ex (\<lambda>imply. case map_of technologies (imply_name imply) of
                         None \<Rightarrow> False
                       | Some t \<Rightarrow> name t = n)
       (implies (tm_technology tm))"

definition expanded :: "technology dict \<Rightarrow> techmatch list \<Rightarrow> nat \<Rightarrow> bool" where
  "expanded T out k = (\<forall>n. implies_to T (out ! k) n \<longrightarrow> n \<in> tm_names out)"

definition reached :: "technology dict \<Rightarrow> techmatch set \<Rightarrow> techmatch list \<Rightarrow> techmatch \<Rightarrow> bool" where
  "reached T S impls tm =
     (tm \<in> S \<or> (\<exists>j<length impls. derived_from T (impls ! j) tm \<and>
                    (\<forall>k. j < k \<and> k < length impls \<longrightarrow> expanded T impls k)))"

definition first_reached_inv :: "technology dict \<Rightarrow> techmatch set \<Rightarrow> techmatch list \<Rightarrow> bool" where
  "first_reached_inv T S out =
     (\<forall>i<length out. out ! i \<in> S \<or>
        (\<exists>j<i. derived_from T (out ! j) (out ! i) \<and>
           (\<forall>k. j < k \<and> k < i \<longrightarrow> \<not> implies_to T (out ! k) (name (tm_technology (out ! i))))))"

section \<open>Rule-set loader (load.py, transform_patterns)\<close>

text \<open>
  The JSON value of a pattern field is absent, a string, a list of strings, or an object
  from keys to a string or a list of strings.  \<^verbatim>\<open>_transform_patterns\<close> returns a list of
  patterns (\<open>TList\<close>) or a dictionary of them (\<open>TDict\<close>).  \<^verbatim>\<open>_parse_pattern\<close>, which splits a
  pattern string and compiles its regular expression, is a parameter: it is called with the
  pattern string and the key as written in the rule set.
\<close>

datatype json_pattern = JStr string | JList "string list"

datatype json_patterns = JAbsent | JPlain json_pattern | JDict "json_pattern dict"

datatype transformed = TList "pattern list" | TDict "pattern list dict"

fun to_list :: "json_pattern \<Rightarrow> string list" where
  "to_list (JStr s) = [s]"
| "to_list (JList l) = l"

fun falsy :: "json_patterns \<Rightarrow> bool" where
  "falsy JAbsent = True"
| "falsy (JPlain (JStr s)) = (s = [])"
| "falsy (JPlain (JList l)) = (l = [])"
| "falsy (JDict d) = (d = [])"

definition transform_patterns ::
  "(string \<Rightarrow> string \<Rightarrow> pattern) \<Rightarrow> json_patterns \<Rightarrow> bool \<Rightarrow> transformed" where
  "transform_patterns parse_pattern patterns case_sensitive =
     (if falsy patterns then TList []
      else let patterns' = (case patterns of
                              JPlain v \<Rightarrow> [(''main'', v)]
                            | JDict d \<Rightarrow> d
                            | JAbsent \<Rightarrow> []);
               parsed = fold (\<lambda>(key, v) parsed.
                          AList.update (if case_sensitive then key else lower key)
                            (map (\<lambda>ptrn. parse_pattern ptrn key) (to_list v)) parsed)
                        patterns' []
           in (case map_of parsed ''main'' of
                 Some ps \<Rightarrow> TList ps
               | None \<Rightarrow> TDict parsed))"

section \<open>Resolution and discovery (match.py)\<close>

definition resolve_techno_matches ::
  "hash_fn \<Rightarrow> (string \<times> string \<times> string \<Rightarrow> nat) \<Rightarrow> nat \<Rightarrow> technology dict \<Rightarrow> patternmatch list \<Rightarrow>
   error + techmatch list" where
  "resolve_techno_matches h rank frames technologies pattern_matches =
     (let pattern_matches' = list_of_set h rank pattern_matches;
          techno_matches = extract_techno_matches pattern_matches'
      in (case resolve_implies frames techno_matches technologies of
            Inl e \<Rightarrow> Inl e
          | Inr techno_matches' \<Rightarrow> Inr (resolve_excludes techno_matches')))"

definition discover_technologies ::
  "hash_fn \<Rightarrow> (string \<times> string \<times> string \<Rightarrow> nat) \<Rightarrow> nat \<Rightarrow> technology dict \<Rightarrow> string option \<Rightarrow>
   string option \<Rightarrow> string list option \<Rightarrow> string list dict option \<Rightarrow> string list dict option \<Rightarrow>
   string list dict option \<Rightarrow> error + techmatch list" where
  "discover_technologies h rank frames technologies url_s html_s scripts_s cookies_s metas_s headers_s =
     resolve_techno_matches h rank frames technologies
       (match_all technologies url_s html_s scripts_s cookies_s metas_s headers_s None)"

text \<open>
  For claim C10: a technology, a hit, a match and a rule set with the \<^verbatim>\<open>js\<close> pattern
  collections emptied, and the part of a \<^verbatim>\<open>TechMatch\<close> that does not hold patterns.
\<close>

definition without_js :: "technology \<Rightarrow> technology" where
  "without_js t = t\<lparr>js := []\<rparr>"

definition pm_without_js :: "patternmatch \<Rightarrow> patternmatch" where
  "pm_without_js pm = pm\<lparr>pm_technology := without_js (pm_technology pm)\<rparr>"

definition tm_without_js :: "techmatch \<Rightarrow> techmatch" where
  "tm_without_js tm = tm\<lparr>tm_technology := without_js (tm_technology tm)\<rparr>"

definition rules_without_js :: "technology dict \<Rightarrow> technology dict" where
  "rules_without_js technologies = map (\<lambda>(k, t). (k, without_js t)) technologies"

definition summary :: "techmatch \<Rightarrow> string \<times> int \<times> string" where
  "summary tm = (name (tm_technology tm), tm_confidence tm, tm_version tm)"

section \<open>Keyed rules in effect\<close>

text \<open>
  For claim C9.  \<open>pattern_hit\<close> is the \<^verbatim>\<open>PatternMatch\<close> that \<^verbatim>\<open>_match_patterns\<close> yields for a
  pattern and a value it matches.  \<open>effective_entries\<close> keeps the entries of a key-value
  listing that no later entry overwrites when the entries are stored one after the other
  under the key \<open>key_of k\<close>, as both \<^verbatim>\<open>_transform_patterns\<close> and the cookie branch of
  \<^verbatim>\<open>match_pairs\<close> do with \<^verbatim>\<open>key.lower()\<close>.
\<close>

definition pattern_hit :: "technology \<Rightarrow> pattern \<Rightarrow> string \<Rightarrow> patternmatch" where
  "pattern_hit technology pattern val =
     \<lparr>pm_technology = technology, pm_pattern = pattern,
      pm_version = resolve_version (p_version pattern) (p_regex pattern) val\<rparr>"

fun effective_entries :: "(string \<Rightarrow> string) \<Rightarrow> (string \<times> 'v) list \<Rightarrow> (string \<times> 'v) list" where
  "effective_entries key_of [] = []"
| "effective_entries key_of ((k, v) # rest) =
     (if key_of k \<in> key_of ` fst ` set rest then effective_entries key_of rest
      else (k, v) # effective_entries key_of rest)"

section \<open>Fixtures\<close>

text \<open>
  A technology as \<^verbatim>\<open>load_apps\<close> builds it from a rule that declares nothing but
  \<^verbatim>\<open>implies\<close> and \<^verbatim>\<open>excludes\<close>: every pattern collection is empty.
\<close>

definition plain_technology :: "string \<Rightarrow> imply list \<Rightarrow> exclude list \<Rightarrow> technology" where
  "plain_technology n imps excls =
     \<lparr>name = n, categories = [], url = [], headers = [], cookies = [], html = [], meta = [],
      scripts = [], js = [], implies = imps, excludes = excls, icon = [], website = [], cpe = []\<rparr>"

definition plain_match :: "string \<Rightarrow> imply list \<Rightarrow> exclude list \<Rightarrow> int \<Rightarrow> techmatch" where
  "plain_match n imps excls c =
     \<lparr>tm_technology = plain_technology n imps excls, tm_confidence = c, tm_version = []\<rparr>"

definition hit :: "string \<Rightarrow> string \<Rightarrow> int \<Rightarrow> string \<Rightarrow> patternmatch" where
  "hit n v c ver =
     \<lparr>pm_technology = plain_technology n [] [],
      pm_pattern = \<lparr>p_value = v, p_regex = (\<lambda>s. None), p_confidence = c, p_version = [], p_key = []\<rparr>,
      pm_version = ver\<rparr>"

lemmas fixture_eval = hit_def plain_technology_def plain_match_def

text \<open>
  The pattern \<^verbatim>\<open>.*\<close>: the search matches at the start of every value, up to the first
  newline, and has no groups.
\<close>

definition dot_star :: pattern where
  "dot_star = \<lparr>p_value = ''.*'', p_regex = (\<lambda>v. Some (takeWhile (\<lambda>c. c \<noteq> CHR 0x0A) v, [])),
               p_confidence = 100, p_version = [], p_key = ''main''\<rparr>"

definition any_url_technology :: technology where
  "any_url_technology = (plain_technology ''X'' [] []) \<lparr>url := [dot_star]\<rparr>"

definition js_technology :: technology where
  "js_technology = any_url_technology \<lparr>js := [(''jQuery'', [dot_star])]\<rparr>"

text \<open>
  \<open>any_pattern\<close> is what the parser returns for the pattern string \<^verbatim>\<open>.*\<close>;
  \<open>server_technology\<close> is a technology whose rule declares the header \<^verbatim>\<open>Server\<close> with it.
\<close>

definition any_pattern :: "string \<Rightarrow> string \<Rightarrow> pattern" where
  "any_pattern ptrn key = dot_star\<lparr>p_value := ptrn, p_key := key\<rparr>"

definition server_technology :: technology where
  "server_technology =
     (plain_technology ''X'' [] []) \<lparr>headers := [(''server'', [any_pattern ''.*'' ''Server''])]\<rparr>"

definition cyclic_rules :: "technology dict" where
  "cyclic_rules =
     [(''A'', plain_technology ''A'' [\<lparr>imply_name = ''B'', imply_confidence = 50\<rparr>] []),
      (''B'', plain_technology ''B'' [\<lparr>imply_name = ''A'', imply_confidence = 100\<rparr>] [])]"





text \<open>
  A technology whose rule declares the headers \<^verbatim>\<open>Server\<close> and \<^verbatim>\<open>X-Powered-By\<close>.
\<close>

definition two_header_technology :: technology where
  "two_header_technology =
     (plain_technology ''X'' [] [])
       \<lparr>headers := [(''server'', [any_pattern ''nginx'' ''Server'']),
                    (''x-powered-by'', [any_pattern ''php'' ''X-Powered-By''])]\<rparr>"

section \<open>Properties of the exclusion resolver\<close>

lemma resolve_excludes_loop_Cons:
  "resolve_excludes_loop (x # xs) acc =
     resolve_excludes_loop (filter (\<lambda>tm. \<not> excluded_by x tm) xs) (acc @ [x])"
  by (simp add: Let_def excluded_by_def)

lemma resolve_excludes_loop_acc:
  "resolve_excludes_loop xs acc = acc @ resolve_excludes_loop xs []"
proof (induction "length xs" arbitrary: xs acc rule: less_induct)
  case less
  show ?case
  proof (cases xs)
    case Nil
    then show ?thesis by simp
  next
    case (Cons x ys)
    let ?f = "filter (\<lambda>tm. \<not> excluded_by x tm) ys"
    have len: "length ?f < length xs" using Cons by (simp add: less_Suc_eq_le)
    have "resolve_excludes_loop xs acc = resolve_excludes_loop ?f (acc @ [x])"
      unfolding Cons by (rule resolve_excludes_loop_Cons)
    also have "\<dots> = (acc @ [x]) @ resolve_excludes_loop ?f []"
      by (rule less[OF len])
    also have "\<dots> = acc @ resolve_excludes_loop ?f ([] @ [x])"
      using less[OF len, of "[x]"] by simp
    also have "\<dots> = acc @ resolve_excludes_loop xs []"
      unfolding Cons by (simp only: resolve_excludes_loop_Cons)
    finally show ?thesis .
  qed
qed

lemma resolve_excludes_Nil: "resolve_excludes [] = []"
  by (simp add: resolve_excludes_def)

lemma resolve_excludes_Cons:
  "resolve_excludes (x # xs) = x # resolve_excludes (filter (\<lambda>tm. \<not> excluded_by x tm) xs)"
  unfolding resolve_excludes_def
  by (subst resolve_excludes_loop_Cons, subst resolve_excludes_loop_acc) simp

lemma set_resolve_excludes_subset: "set (resolve_excludes xs) \<subseteq> set xs"
proof (induction "length xs" arbitrary: xs rule: less_induct)
  case less
  show ?case
  proof (cases xs)
    case Nil
    then show ?thesis by (simp add: resolve_excludes_Nil)
  next
    case (Cons x ys)
    let ?f = "filter (\<lambda>tm. \<not> excluded_by x tm) ys"
    have len: "length ?f < length xs" using Cons by (simp add: less_Suc_eq_le)
    from less[OF len] show ?thesis unfolding Cons resolve_excludes_Cons by auto
  qed
qed

text \<open>A match that no earlier match excludes is kept.\<close>

lemma resolve_excludes_keeps:
  "\<forall>p\<in>set pre. \<not> excluded_by p a \<Longrightarrow> a \<in> set (resolve_excludes (pre @ a # post))"
proof (induction "length pre" arbitrary: pre post rule: less_induct)
  case less
  show ?case
  proof (cases pre)
    case Nil
    then show ?thesis by (simp add: resolve_excludes_Cons)
  next
    case (Cons p pre')
    let ?P = "\<lambda>tm. \<not> excluded_by p tm"
    have pa: "?P a" using less.prems Cons by simp
    have len: "length (filter ?P pre') < length pre" using Cons by (simp add: less_Suc_eq_le)
    have hyp: "\<forall>q\<in>set (filter ?P pre'). \<not> excluded_by q a" using less.prems Cons by simp
    have "a \<in> set (resolve_excludes (filter ?P pre' @ a # filter ?P post))"
      by (rule less.hyps[OF len hyp])
    then show ?thesis unfolding Cons using pa by (simp add: resolve_excludes_Cons)
  qed
qed

text \<open>A kept match removes every later match that it excludes.\<close>

lemma resolve_excludes_drops:
  "distinct (map (\<lambda>tm. name (tm_technology tm)) (pre @ a # post)) \<Longrightarrow> b \<in> set post \<Longrightarrow>
   excluded_by a b \<Longrightarrow> a \<in> set (resolve_excludes (pre @ a # post)) \<Longrightarrow>
   b \<notin> set (resolve_excludes (pre @ a # post))"
proof (induction "length pre" arbitrary: pre post rule: less_induct)
  case less
  have ba: "b \<noteq> a" using less.prems(1,2) by auto
  show ?case
  proof (cases pre)
    case Nil
    have "b \<notin> set (filter (\<lambda>tm. \<not> excluded_by a tm) post)" using less.prems(3) by simp
    then have "b \<notin> set (resolve_excludes (filter (\<lambda>tm. \<not> excluded_by a tm) post))"
      using set_resolve_excludes_subset by blast
    then show ?thesis unfolding Nil using ba by (simp add: resolve_excludes_Cons)
  next
    case (Cons p pre')
    let ?P = "\<lambda>tm. \<not> excluded_by p tm"
    let ?rest = "filter ?P (pre' @ a # post)"
    have ap: "a \<noteq> p" and bp: "b \<noteq> p" using less.prems(1,2) Cons by auto
    have out: "resolve_excludes (pre @ a # post) = p # resolve_excludes ?rest"
      unfolding Cons by (simp add: resolve_excludes_Cons)
    have a_in: "a \<in> set (resolve_excludes ?rest)" using less.prems(4) ap unfolding out by simp
    then have "a \<in> set ?rest" using set_resolve_excludes_subset by blast
    then have pa: "?P a" unfolding set_filter by blast
    have rest: "?rest = filter ?P pre' @ a # filter ?P post" using pa by simp
    show ?thesis
    proof (cases "?P b")
      case True
      have len: "length (filter ?P pre') < length pre" using Cons by (simp add: less_Suc_eq_le)
      have d: "distinct (map (\<lambda>tm. name (tm_technology tm)) (filter ?P pre' @ a # filter ?P post))"
      proof -
        have "distinct (map (\<lambda>tm. name (tm_technology tm)) (pre' @ a # post))"
          using less.prems(1) unfolding Cons by simp
        then have "distinct (map (\<lambda>tm. name (tm_technology tm)) ?rest)"
          by (rule distinct_map_filter)
        then show ?thesis by (simp only: rest)
      qed
      have bi: "b \<in> set (filter ?P post)" using True less.prems(2) by simp
      have "b \<notin> set (resolve_excludes (filter ?P pre' @ a # filter ?P post))"
        by (rule less.hyps[OF len d bi less.prems(3)]) (use a_in rest in simp)
      then show ?thesis unfolding out using bp rest by simp
    next
      case False
      then have "b \<notin> set ?rest" unfolding set_filter by blast
      then have "b \<notin> set (resolve_excludes ?rest)" using set_resolve_excludes_subset by blast
      then show ?thesis unfolding out using bp by simp
    qed
  qed
qed

text \<open>
  Claim C4, as amended.  \<^const>\<open>resolve_excludes\<close> keeps the head of the remaining list and
  drops from the rest every match whose technology name is in the kept match's exclude list.
  For a list of matches with distinct technology names in which \<open>a\<close> stands before \<open>b\<close> and
  \<open>a\<close> excludes \<open>b\<close>: when no match before \<open>a\<close> excludes \<open>a\<close>, the output contains \<open>a\<close> and
  not \<open>b\<close>; and in every case the output does not contain both.
\<close>

theorem resolve_excludes_first_kept_wins:
  assumes "distinct (map (\<lambda>tm. name (tm_technology tm)) (pre @ a # post))"
    and "b \<in> set post"
    and "excluded_by a b"
  shows "resolve_excludes [] = [] \<and>
         (\<forall>x xs. resolve_excludes (x # xs) =
                   x # resolve_excludes (filter (\<lambda>tm. \<not> excluded_by x tm) xs)) \<and>
         ((\<forall>p\<in>set pre. \<not> excluded_by p a) \<longrightarrow>
            a \<in> set (resolve_excludes (pre @ a # post)) \<and>
            b \<notin> set (resolve_excludes (pre @ a # post))) \<and>
         \<not> (a \<in> set (resolve_excludes (pre @ a # post)) \<and>
            b \<in> set (resolve_excludes (pre @ a # post)))"
proof -
  have drops: "a \<in> set (resolve_excludes (pre @ a # post)) \<Longrightarrow>
               b \<notin> set (resolve_excludes (pre @ a # post))"
    by (rule resolve_excludes_drops[OF assms])
  have keeps: "\<forall>p\<in>set pre. \<not> excluded_by p a \<Longrightarrow> a \<in> set (resolve_excludes (pre @ a # post))"
    by (rule resolve_excludes_keeps)
  show ?thesis
    using drops keeps resolve_excludes_Nil resolve_excludes_Cons by blast
qed

theorem resolve_excludes_first_kept_wins_witness:
  "resolve_excludes
     [plain_match ''A'' [] [\<lparr>exclude_name = ''B''\<rparr>] 100,
      plain_match ''B'' [] [\<lparr>exclude_name = ''A''\<rparr>] 100] =
   [plain_match ''A'' [] [\<lparr>exclude_name = ''B''\<rparr>] 100] \<and>
   plain_match ''A'' [] [\<lparr>exclude_name = ''B''\<rparr>] 100 \<in> set (resolve_excludes
     ([] @ plain_match ''A'' [] [\<lparr>exclude_name = ''B''\<rparr>] 100 #
      [plain_match ''B'' [] [\<lparr>exclude_name = ''A''\<rparr>] 100])) \<and>
   plain_match ''B'' [] [\<lparr>exclude_name = ''A''\<rparr>] 100 \<notin> set (resolve_excludes
     ([] @ plain_match ''A'' [] [\<lparr>exclude_name = ''B''\<rparr>] 100 #
      [plain_match ''B'' [] [\<lparr>exclude_name = ''A''\<rparr>] 100]))"
proof -
  let ?A = "plain_match ''A'' [] [\<lparr>exclude_name = ''B''\<rparr>] 100"
  let ?B = "plain_match ''B'' [] [\<lparr>exclude_name = ''A''\<rparr>] 100"
  have d: "distinct (map (\<lambda>tm. name (tm_technology tm)) ([] @ ?A # [?B]))"
    by (simp add: plain_match_def plain_technology_def)
  have m: "?B \<in> set [?B]" by simp
  have e: "excluded_by ?A ?B"
    by (simp add: excluded_by_def plain_match_def plain_technology_def)
  have r: "resolve_excludes [?A, ?B] = [?A]"
    by (simp add: resolve_excludes_def Let_def plain_match_def plain_technology_def)
  show ?thesis
    using resolve_excludes_first_kept_wins[OF d m e] r by simp
qed

text \<open>
  The claim as stated fails when an earlier match excludes \<open>A\<close>: with \<open>C\<close> excluding \<open>A\<close> and
  \<open>A\<close>, \<open>B\<close> excluding each other, the input \<open>[C, A, B]\<close> has \<open>A\<close> before \<open>B\<close>, and the
  output holds \<open>B\<close> and not \<open>A\<close>.
\<close>

theorem resolve_excludes_earlier_not_always_kept:
  "excluded_by (plain_match ''A'' [] [\<lparr>exclude_name = ''B''\<rparr>] 100)
               (plain_match ''B'' [] [\<lparr>exclude_name = ''A''\<rparr>] 100) \<and>
   excluded_by (plain_match ''B'' [] [\<lparr>exclude_name = ''A''\<rparr>] 100)
               (plain_match ''A'' [] [\<lparr>exclude_name = ''B''\<rparr>] 100) \<and>
   resolve_excludes
     [plain_match ''C'' [] [\<lparr>exclude_name = ''A''\<rparr>] 100,
      plain_match ''A'' [] [\<lparr>exclude_name = ''B''\<rparr>] 100,
      plain_match ''B'' [] [\<lparr>exclude_name = ''A''\<rparr>] 100] =
     [plain_match ''C'' [] [\<lparr>exclude_name = ''A''\<rparr>] 100,
      plain_match ''B'' [] [\<lparr>exclude_name = ''A''\<rparr>] 100]"
  by (simp add: resolve_excludes_def Let_def excluded_by_def plain_match_def plain_technology_def)

section \<open>Properties of the implication resolver\<close>

lemma list_ex_TechMatch_eq:
  "list_ex (\<lambda>item. TechMatch_eq item tm) impls \<longleftrightarrow> name (tm_technology tm) \<in> tm_names impls"
  by (induction impls) (auto simp: TechMatch_eq_def tm_names_def)


lemma prefix_tm_names: "prefix xs ys \<Longrightarrow> tm_names xs \<subseteq> tm_names ys"
  unfolding tm_names_def by (auto dest: set_mono_prefix)



lemma resolve_implies_prefix:
  "resolve_implies_inner f T impls tm = Inr r \<Longrightarrow> prefix impls r"
  "resolve_implies_each f T impls xs = Inr r \<Longrightarrow> prefix impls r"
proof (induction f T impls tm and f T impls xs arbitrary: r and r
       rule: resolve_implies_inner_resolve_implies_each.induct)
  case (1 T impls tm)
  then show ?case by (simp add: resolve_implies_inner.simps)
next
  case (2 f T impls tm)
  show ?case
  proof (cases "list_ex (\<lambda>item. TechMatch_eq item tm) impls")
    case True
    then show ?thesis using "2.prems" by (simp add: resolve_implies_inner.simps)
  next
    case False
    then obtain ims where ims: "implied_matches T tm (implies (tm_technology tm)) = Inr ims"
      and r: "resolve_implies_each f T (impls @ [tm]) ims = Inr r"
      using "2.prems" by (auto simp: resolve_implies_inner.simps split: sum.splits)
    have "prefix (impls @ [tm]) r" by (rule "2.IH"[OF False ims r])
    then show ?thesis by (rule append_prefixD)
  qed
next
  case (3 f T impls)
  then show ?case by simp
next
  case (4 f T impls tm rest)
  from "4.prems" obtain mid where
    mid: "resolve_implies_inner f T impls tm = Inr mid" and
    r: "resolve_implies_each f T mid rest = Inr r"
    by (auto split: sum.splits)
  have "prefix impls mid" by (rule "4.IH"(1)[OF mid])
  moreover have "prefix mid r" by (rule "4.IH"(2)[OF mid r])
  ultimately show ?case by (rule prefix_order.trans)
qed


lemma implied_matches_error:
  "implied_matches T tm imps = Inl e \<Longrightarrow> \<exists>n. e = KeyError n \<and> map_of T n = None"
  by (induction imps) (auto split: option.splits sum.splits)

lemma resolve_implies_error:
  "resolve_implies_inner f T impls tm = Inl e \<Longrightarrow>
     e = RecursionError \<or> (\<exists>n. e = KeyError n \<and> map_of T n = None)"
  "resolve_implies_each f T impls xs = Inl e \<Longrightarrow>
     e = RecursionError \<or> (\<exists>n. e = KeyError n \<and> map_of T n = None)"
proof (induction f T impls tm and f T impls xs
       rule: resolve_implies_inner_resolve_implies_each.induct)
  case (1 T impls tm)
  then show ?case by (auto simp: resolve_implies_inner.simps)
next
  case (2 f T impls tm)
  then show ?case
    by (auto simp: resolve_implies_inner.simps dest: implied_matches_error
             split: if_splits sum.splits)
next
  case (3 f T impls)
  then show ?case by simp
next
  case (4 f T impls tm rest)
  then show ?case by (auto split: sum.splits)
qed


lemma resolve_implies_each_append:
  "resolve_implies_each f T impls (xs @ ys) =
     (case resolve_implies_each f T impls xs of
        Inl e \<Rightarrow> Inl e
      | Inr mid \<Rightarrow> resolve_implies_each f T mid ys)"
  by (induction xs arbitrary: impls) (auto split: sum.splits)

lemma resolve_implies_inner_unfold:
  "resolve_implies_inner frames T impls tm =
     (if frames = 0 then Inl RecursionError
      else if list_ex (\<lambda>item. TechMatch_eq item tm) impls then Inr impls
      else (case implied_matches T tm (implies (tm_technology tm)) of
              Inl e \<Rightarrow> Inl e
            | Inr ims \<Rightarrow> resolve_implies_each (frames - 1) T (impls @ [tm]) ims))"
  by (cases frames) (auto simp: resolve_implies_inner.simps split: sum.splits)

lemma implied_matches_derived:
  "implied_matches T tm imps = Inr ims \<Longrightarrow> x \<in> set ims \<Longrightarrow>
   list_ex (\<lambda>imply.
        map_of T (imply_name imply) = Some (tm_technology x) \<and>
        tm_confidence x = min (imply_confidence imply) (tm_confidence tm) \<and>
        tm_version x = []) imps"
proof (induction imps arbitrary: ims)
  case Nil
  then show ?case by simp
next
  case (Cons i imps)
  from Cons.prems(1) obtain t rest where
    t: "map_of T (imply_name i) = Some t" and
    rest: "implied_matches T tm imps = Inr rest" and
    ims: "ims = \<lparr>tm_technology = t, tm_confidence = min (imply_confidence i) (tm_confidence tm),
                  tm_version = []\<rparr> # rest"
    by (auto split: option.splits sum.splits)
  show ?case
  proof (cases "x \<in> set rest")
    case True
    then show ?thesis using Cons.IH[OF rest] by simp
  next
    case False
    then have "x = \<lparr>tm_technology = t, tm_confidence = min (imply_confidence i) (tm_confidence tm),
                  tm_version = []\<rparr>" using Cons.prems(2) ims by simp
    then show ?thesis using t by simp
  qed
qed

lemma expanded_mono:
  assumes "expanded T impls k" "k < length impls" "prefix impls r"
  shows "expanded T r k"
proof -
  from assms(3) obtain zs where r: "r = impls @ zs" by (auto simp: prefix_def)
  have "r ! k = impls ! k" using assms(2) r by (simp add: nth_append)
  moreover have "tm_names impls \<subseteq> tm_names r" using assms(3) by (rule prefix_tm_names)
  ultimately show ?thesis using assms(1) unfolding expanded_def by auto
qed

lemma implied_matches_targets:
  "implied_matches T tm imps = Inr ims \<Longrightarrow>
   list_ex (\<lambda>imply. case map_of T (imply_name imply) of None \<Rightarrow> False | Some t \<Rightarrow> name t = n) imps \<Longrightarrow>
   n \<in> tm_names ims"
proof (induction imps arbitrary: ims)
  case Nil
  then show ?case by simp
next
  case (Cons i imps)
  from Cons.prems(1) obtain t rest where
    t: "map_of T (imply_name i) = Some t" and
    rest: "implied_matches T tm imps = Inr rest" and
    ims: "ims = \<lparr>tm_technology = t, tm_confidence = min (imply_confidence i) (tm_confidence tm),
                  tm_version = []\<rparr> # rest"
    by (auto split: option.splits sum.splits)
  show ?case
  proof (cases "name t = n")
    case True
    then show ?thesis unfolding ims by (simp add: tm_names_def)
  next
    case False
    then have "list_ex (\<lambda>imply. case map_of T (imply_name imply) of None \<Rightarrow> False | Some t \<Rightarrow> name t = n) imps"
      using Cons.prems(2) t by simp
    from Cons.IH[OF rest this] show ?thesis unfolding ims by (simp add: tm_names_def)
  qed
qed

lemma resolve_implies_expanded:
  "resolve_implies_inner f T impls tm = Inr r \<Longrightarrow>
     name (tm_technology tm) \<in> tm_names r \<and>
     (\<forall>k. length impls \<le> k \<and> k < length r \<longrightarrow> expanded T r k)"
  "resolve_implies_each f T impls xs = Inr r \<Longrightarrow>
     tm_names xs \<subseteq> tm_names r \<and>
     (\<forall>k. length impls \<le> k \<and> k < length r \<longrightarrow> expanded T r k)"
proof (induction f T impls tm and f T impls xs arbitrary: r and r
       rule: resolve_implies_inner_resolve_implies_each.induct)
  case (1 T impls tm)
  then show ?case by (simp add: resolve_implies_inner.simps)
next
  case (2 f T impls tm)
  show ?case
  proof (cases "list_ex (\<lambda>item. TechMatch_eq item tm) impls")
    case True
    then have "r = impls" using "2.prems" by (simp add: resolve_implies_inner.simps)
    then show ?thesis using True by (auto simp: list_ex_TechMatch_eq)
  next
    case False
    then obtain ims where ims: "implied_matches T tm (implies (tm_technology tm)) = Inr ims"
      and r: "resolve_implies_each f T (impls @ [tm]) ims = Inr r"
      using "2.prems" by (auto simp: resolve_implies_inner.simps split: sum.splits)
    from "2.IH"[OF False ims r] have
      sub: "tm_names ims \<subseteq> tm_names r" and
      ex: "\<forall>k. length (impls @ [tm]) \<le> k \<and> k < length r \<longrightarrow> expanded T r k" by simp_all
    have pre: "prefix (impls @ [tm]) r" using r by (rule resolve_implies_prefix(2))
    then obtain zs where rz: "r = (impls @ [tm]) @ zs" by (auto simp: prefix_def)
    have at: "r ! length impls = tm" unfolding rz by (simp add: nth_append)
    have "name (tm_technology tm) \<in> tm_names r" unfolding rz by (simp add: tm_names_def)
    moreover have "expanded T r (length impls)"
      unfolding expanded_def at implies_to_def
      using implied_matches_targets[OF ims] sub by blast
    moreover have "expanded T r k" if "length impls \<le> k \<and> k < length r" for k
    proof (cases "k = length impls")
      case True
      then show ?thesis using \<open>expanded T r (length impls)\<close> by simp
    next
      case False
      then show ?thesis using ex that by simp
    qed
    ultimately show ?thesis by blast
  qed
next
  case (3 f T impls)
  then show ?case by (auto simp: tm_names_def)
next
  case (4 f T impls tm rest)
  from "4.prems" obtain mid where
    mid: "resolve_implies_inner f T impls tm = Inr mid" and
    r: "resolve_implies_each f T mid rest = Inr r"
    by (auto split: sum.splits)
  from "4.IH"(1)[OF mid] have
    n: "name (tm_technology tm) \<in> tm_names mid" and
    e1: "\<forall>k. length impls \<le> k \<and> k < length mid \<longrightarrow> expanded T mid k" by simp_all
  from "4.IH"(2)[OF mid r] have
    s: "tm_names rest \<subseteq> tm_names r" and
    e2: "\<forall>k. length mid \<le> k \<and> k < length r \<longrightarrow> expanded T r k" by simp_all
  have pre: "prefix mid r" using r by (rule resolve_implies_prefix(2))
  have "tm_names mid \<subseteq> tm_names r" using pre by (rule prefix_tm_names)
  then have names: "tm_names (tm # rest) \<subseteq> tm_names r" using n s by (auto simp: tm_names_def)
  have "expanded T r k" if k: "length impls \<le> k \<and> k < length r" for k
  proof (cases "k < length mid")
    case True
    then have "expanded T mid k" using e1 k by simp
    then show ?thesis using True pre by (rule expanded_mono)
  next
    case False
    then show ?thesis using e2 k by simp
  qed
  with names show ?case by blast
qed


lemma reached_mono:
  assumes "reached T S impls x" "prefix impls mid"
    and "\<forall>k. length impls \<le> k \<and> k < length mid \<longrightarrow> expanded T mid k"
  shows "reached T S mid x"
proof (cases "x \<in> S")
  case True
  then show ?thesis by (simp add: reached_def)
next
  case False
  then obtain j where j: "j < length impls" "derived_from T (impls ! j) x"
    and e: "\<forall>k. j < k \<and> k < length impls \<longrightarrow> expanded T impls k"
    using assms(1) by (auto simp: reached_def)
  from assms(2) obtain zs where mid: "mid = impls @ zs" by (auto simp: prefix_def)
  have jm: "j < length mid" "mid ! j = impls ! j" using j(1) mid by (simp_all add: nth_append)
  have "expanded T mid k" if k: "j < k \<and> k < length mid" for k
  proof (cases "k < length impls")
    case True
    then have "expanded T impls k" using e k by simp
    then show ?thesis using True assms(2) by (rule expanded_mono)
  next
    case False
    then show ?thesis using assms(3) k by simp
  qed
  then show ?thesis using jm j(2) unfolding reached_def by metis
qed

lemma first_reached_inv_snoc:
  assumes "first_reached_inv T S impls" "reached T S impls tm"
    and "name (tm_technology tm) \<notin> tm_names impls"
  shows "first_reached_inv T S (impls @ [tm])"
  unfolding first_reached_inv_def
proof (intro allI impI)
  fix i assume i: "i < length (impls @ [tm])"
  show "(impls @ [tm]) ! i \<in> S \<or>
        (\<exists>j<i. derived_from T ((impls @ [tm]) ! j) ((impls @ [tm]) ! i) \<and>
           (\<forall>k. j < k \<and> k < i \<longrightarrow>
              \<not> implies_to T ((impls @ [tm]) ! k) (name (tm_technology ((impls @ [tm]) ! i)))))"
  proof (cases "i < length impls")
    case True
    then have "impls ! i \<in> S \<or>
        (\<exists>j<i. derived_from T (impls ! j) (impls ! i) \<and>
           (\<forall>k. j < k \<and> k < i \<longrightarrow> \<not> implies_to T (impls ! k) (name (tm_technology (impls ! i)))))"
      using assms(1) by (simp add: first_reached_inv_def)
    then show ?thesis using True by (auto simp: nth_append)
  next
    case False
    then have il: "i = length impls" using i by simp
    show ?thesis
    proof (cases "tm \<in> S")
      case True
      then show ?thesis using il by simp
    next
      case False
      then obtain j where j: "j < length impls" "derived_from T (impls ! j) tm"
        and e: "\<forall>k. j < k \<and> k < length impls \<longrightarrow> expanded T impls k"
        using assms(2) by (auto simp: reached_def)
      have "\<not> implies_to T (impls ! k) (name (tm_technology tm))" if "j < k \<and> k < length impls" for k
        using e that assms(3) unfolding expanded_def by blast
      then show ?thesis using j il by (auto simp: nth_append intro!: exI[of _ j])
    qed
  qed
qed

lemma resolve_implies_first_reached:
  "resolve_implies_inner f T impls tm = Inr r \<Longrightarrow> first_reached_inv T S impls \<Longrightarrow>
     reached T S impls tm \<Longrightarrow> first_reached_inv T S r"
  "resolve_implies_each f T impls xs = Inr r \<Longrightarrow> first_reached_inv T S impls \<Longrightarrow>
     (\<forall>x\<in>set xs. reached T S impls x) \<Longrightarrow> first_reached_inv T S r"
proof (induction f T impls tm and f T impls xs arbitrary: r and r
       rule: resolve_implies_inner_resolve_implies_each.induct)
  case (1 T impls tm)
  then show ?case by (simp add: resolve_implies_inner.simps)
next
  case (2 f T impls tm)
  show ?case
  proof (cases "list_ex (\<lambda>item. TechMatch_eq item tm) impls")
    case True
    then show ?thesis using "2.prems" by (simp add: resolve_implies_inner.simps)
  next
    case False
    then obtain ims where ims: "implied_matches T tm (implies (tm_technology tm)) = Inr ims"
      and r: "resolve_implies_each f T (impls @ [tm]) ims = Inr r"
      using "2.prems" by (auto simp: resolve_implies_inner.simps split: sum.splits)
    have new: "name (tm_technology tm) \<notin> tm_names impls"
      using False by (simp add: list_ex_TechMatch_eq)
    have inv: "first_reached_inv T S (impls @ [tm])"
      using "2.prems"(2,3) new by (rule first_reached_inv_snoc)
    have "\<forall>x\<in>set ims. reached T S (impls @ [tm]) x"
    proof
      fix x assume "x \<in> set ims"
      then have "derived_from T tm x"
        unfolding derived_from_def by (rule implied_matches_derived[OF ims])
      then have "derived_from T ((impls @ [tm]) ! length impls) x" by simp
      then show "reached T S (impls @ [tm]) x"
        unfolding reached_def by (intro disjI2 exI[of _ "length impls"]) auto
    qed
    with inv show ?thesis by (rule "2.IH"[OF False ims r])
  qed
next
  case (3 f T impls)
  then show ?case by simp
next
  case (4 f T impls tm rest)
  from "4.prems"(1) obtain mid where
    mid: "resolve_implies_inner f T impls tm = Inr mid" and
    r: "resolve_implies_each f T mid rest = Inr r"
    by (auto split: sum.splits)
  have inv: "first_reached_inv T S mid"
    using "4.prems"(2,3) by (intro "4.IH"(1)[OF mid]) simp_all
  have pre: "prefix impls mid" using mid by (rule resolve_implies_prefix(1))
  have ex: "\<forall>k. length impls \<le> k \<and> k < length mid \<longrightarrow> expanded T mid k"
    using resolve_implies_expanded(1)[OF mid] by simp
  have "\<forall>x\<in>set rest. reached T S mid x"
    using "4.prems"(3) pre ex by (auto intro: reached_mono)
  with inv show ?case by (rule "4.IH"(2)[OF mid r])
qed

lemma implied_matches_missing:
  "\<forall>i\<in>set pre. map_of T (imply_name i) \<noteq> None \<Longrightarrow> map_of T (imply_name imp) = None \<Longrightarrow>
   implied_matches T tm (pre @ imp # post) = Inl (KeyError (imply_name imp))"
  by (induction pre) auto




















text \<open>
  Claim C6.  An entry of the output of \<^const>\<open>resolve_implies\<close> that is not one of the input
  matches has the empty version.  An earlier entry of the output, its parent, has an
  \<^verbatim>\<open>implies\<close> entry that the rule set resolves to the entry's technology, and the entry's
  confidence is the minimum of that \<^verbatim>\<open>implies\<close> entry's confidence and the parent's
  confidence.  No entry between the parent and the entry implies a technology of the
  entry's name: the parent is the match from which the technology was first reached.
\<close>

theorem resolve_implies_implied_origin:
  assumes "resolve_implies frames tms T = Inr out"
    and "i < length out"
    and "out ! i \<notin> set tms"
  shows "tm_version (out ! i) = [] \<and>
         (\<exists>j<i.
            (\<exists>imply\<in>set (implies (tm_technology (out ! j))).
               map_of T (imply_name imply) = Some (tm_technology (out ! i)) \<and>
               tm_confidence (out ! i) = min (imply_confidence imply) (tm_confidence (out ! j))) \<and>
            (\<forall>k. j < k \<and> k < i \<longrightarrow>
               \<not> implies_to T (out ! k) (name (tm_technology (out ! i)))))"
proof -
  have "first_reached_inv T (set tms) []" by (simp add: first_reached_inv_def)
  moreover have "\<forall>x\<in>set tms. reached T (set tms) [] x" by (simp add: reached_def)
  ultimately have "first_reached_inv T (set tms) out"
    using assms(1) unfolding resolve_implies_def by (rule resolve_implies_first_reached(2)[rotated 1])
  then obtain j where j: "j < i" "derived_from T (out ! j) (out ! i)"
    and last: "\<forall>k. j < k \<and> k < i \<longrightarrow> \<not> implies_to T (out ! k) (name (tm_technology (out ! i)))"
    using assms(2,3) unfolding first_reached_inv_def by blast
  from j(2) obtain imply where "imply \<in> set (implies (tm_technology (out ! j)))"
    "map_of T (imply_name imply) = Some (tm_technology (out ! i))"
    "tm_confidence (out ! i) = min (imply_confidence imply) (tm_confidence (out ! j))"
    "tm_version (out ! i) = []"
    by (auto simp: derived_from_def list_ex_iff)
  then show ?thesis using j(1) last by blast
qed

theorem resolve_implies_implied_origin_witness:
  "resolve_implies 1000 [plain_match ''A'' [\<lparr>imply_name = ''B'', imply_confidence = 50\<rparr>] [] 80] cyclic_rules =
     Inr [plain_match ''A'' [\<lparr>imply_name = ''B'', imply_confidence = 50\<rparr>] [] 80,
          plain_match ''B'' [\<lparr>imply_name = ''A'', imply_confidence = 100\<rparr>] [] 50] \<and>
   tm_version ([plain_match ''A'' [\<lparr>imply_name = ''B'', imply_confidence = 50\<rparr>] [] 80,
                plain_match ''B'' [\<lparr>imply_name = ''A'', imply_confidence = 100\<rparr>] [] 50] ! 1) = []"
proof -
  let ?A = "plain_match ''A'' [\<lparr>imply_name = ''B'', imply_confidence = 50\<rparr>] [] 80"
  let ?B = "plain_match ''B'' [\<lparr>imply_name = ''A'', imply_confidence = 100\<rparr>] [] 50"
  have r: "resolve_implies 1000 [?A] cyclic_rules = Inr [?A, ?B]"
    by (simp add: resolve_implies_def resolve_implies_inner_unfold TechMatch_eq_def
        cyclic_rules_def plain_match_def plain_technology_def)
  have i: "1 < length [?A, ?B]" by simp
  have n: "[?A, ?B] ! 1 \<notin> set [?A]" by (simp add: plain_match_def plain_technology_def)
  show ?thesis
    using resolve_implies_implied_origin[OF r i n] r by simp
qed

lemma implied_matches_resolved:
  "implied_matches T tm imps = Inr ims \<Longrightarrow> \<forall>i\<in>set imps. map_of T (imply_name i) \<noteq> None"
  by (induction imps arbitrary: ims) (auto split: option.splits sum.splits)

lemma resolve_implies_resolved:
  "resolve_implies_inner f T impls tm = Inr r \<Longrightarrow>
     \<forall>x\<in>set impls. \<forall>i\<in>set (implies (tm_technology x)). map_of T (imply_name i) \<noteq> None \<Longrightarrow>
     \<forall>x\<in>set r. \<forall>i\<in>set (implies (tm_technology x)). map_of T (imply_name i) \<noteq> None"
  "resolve_implies_each f T impls xs = Inr r \<Longrightarrow>
     \<forall>x\<in>set impls. \<forall>i\<in>set (implies (tm_technology x)). map_of T (imply_name i) \<noteq> None \<Longrightarrow>
     \<forall>x\<in>set r. \<forall>i\<in>set (implies (tm_technology x)). map_of T (imply_name i) \<noteq> None"
proof (induction f T impls tm and f T impls xs arbitrary: r and r
       rule: resolve_implies_inner_resolve_implies_each.induct)
  case (1 T impls tm)
  then show ?case by (simp add: resolve_implies_inner.simps)
next
  case (2 f T impls tm)
  show ?case
  proof (cases "list_ex (\<lambda>item. TechMatch_eq item tm) impls")
    case True
    then show ?thesis using "2.prems" by (simp add: resolve_implies_inner.simps)
  next
    case False
    then obtain ims where ims: "implied_matches T tm (implies (tm_technology tm)) = Inr ims"
      and r: "resolve_implies_each f T (impls @ [tm]) ims = Inr r"
      using "2.prems" by (auto simp: resolve_implies_inner.simps split: sum.splits)
    have "\<forall>i\<in>set (implies (tm_technology tm)). map_of T (imply_name i) \<noteq> None"
      using ims by (rule implied_matches_resolved)
    then have "\<forall>x\<in>set (impls @ [tm]). \<forall>i\<in>set (implies (tm_technology x)). map_of T (imply_name i) \<noteq> None"
      using "2.prems"(2) by simp
    then show ?thesis by (rule "2.IH"[OF False ims r])
  qed
next
  case (3 f T impls)
  then show ?case by simp
next
  case (4 f T impls tm rest)
  from "4.prems"(1) obtain mid where
    mid: "resolve_implies_inner f T impls tm = Inr mid" and
    r: "resolve_implies_each f T mid rest = Inr r"
    by (auto split: sum.splits)
  have "\<forall>x\<in>set mid. \<forall>i\<in>set (implies (tm_technology x)). map_of T (imply_name i) \<noteq> None"
    using "4.prems"(2) by (rule "4.IH"(1)[OF mid])
  then show ?case by (rule "4.IH"(2)[OF mid r])
qed

lemma resolve_implies_inner_dangling:
  assumes "\<not> list_ex (\<lambda>item. TechMatch_eq item tm) impls"
    and "implies (tm_technology tm) = pre @ imp # post"
    and "\<forall>i\<in>set pre. map_of T (imply_name i) \<noteq> None"
    and "map_of T (imply_name imp) = None"
    and "0 < f"
  shows "resolve_implies_inner f T impls tm = Inl (KeyError (imply_name imp))"
proof -
  have "implied_matches T tm (implies (tm_technology tm)) = Inl (KeyError (imply_name imp))"
    unfolding assms(2) using assms(3,4) by (rule implied_matches_missing)
  then show ?thesis using assms(1,5) by (simp add: resolve_implies_inner_unfold)
qed

lemma resolve_implies_each_abort:
  assumes "resolve_implies_each f T impls xs = Inr mid"
    and "resolve_implies_inner f T mid x = Inl e"
  shows "resolve_implies_each f T impls (xs @ x # ys) = Inl e"
  using assms by (simp add: resolve_implies_each_append)


text \<open>
  Claim C7, as amended.  When \<^const>\<open>resolve_implies\<close> comes to an input match whose
  technology is not yet recorded and has an \<^verbatim>\<open>implies\<close> entry whose name is not a key of
  the rule set, the whole resolution fails with the \<^verbatim>\<open>KeyError\<close> of the first such name,
  whatever matches follow.  An error raised for an implied technology, at any depth, is
  not handled anywhere: it is the result of the activation that visits the implying match,
  of the loop around that activation, and so of \<^const>\<open>resolve_implies\<close>.  Hence a returned list
  holds a match for every input match, is closed under the \<^verbatim>\<open>implies\<close> entries, and records
  no technology with an entry that the rule set does not resolve.  A failure is this
  \<^verbatim>\<open>KeyError\<close> or \<^verbatim>\<open>RecursionError\<close>; there is no other error.  \<^const>\<open>resolve_excludes\<close> has no
  rule set to consult and no failure: an exclude list that names none of the remaining
  matches drops nothing.
\<close>

theorem dangling_reference_aborts_resolution:
  "(\<forall>frames seen mid tm rest pre imp post.
      0 < frames \<and> resolve_implies frames seen T = Inr mid \<and>
      \<not> list_ex (\<lambda>item. TechMatch_eq item tm) mid \<and>
      implies (tm_technology tm) = pre @ imp # post \<and>
      (\<forall>i\<in>set pre. map_of T (imply_name i) \<noteq> None) \<and>
      map_of T (imply_name imp) = None \<longrightarrow>
      resolve_implies frames (seen @ tm # rest) T = Inl (KeyError (imply_name imp))) \<and>
   (\<forall>frames impls tm ims e.
      \<not> list_ex (\<lambda>item. TechMatch_eq item tm) impls \<and>
      implied_matches T tm (implies (tm_technology tm)) = Inr ims \<and>
      resolve_implies_each frames T (impls @ [tm]) ims = Inl e \<longrightarrow>
      resolve_implies_inner (Suc frames) T impls tm = Inl e) \<and>
   (\<forall>frames impls xs mid x ys e.
      resolve_implies_each frames T impls xs = Inr mid \<and>
      resolve_implies_inner frames T mid x = Inl e \<longrightarrow>
      resolve_implies_each frames T impls (xs @ x # ys) = Inl e) \<and>
   (\<forall>frames seen mid tm rest e.
      resolve_implies frames seen T = Inr mid \<and> resolve_implies_inner frames T mid tm = Inl e \<longrightarrow>
      resolve_implies frames (seen @ tm # rest) T = Inl e) \<and>
   (\<forall>frames tms out. resolve_implies frames tms T = Inr out \<longrightarrow>
      (\<forall>x\<in>set out. \<forall>i\<in>set (implies (tm_technology x)). map_of T (imply_name i) \<noteq> None) \<and>
      (\<forall>tm\<in>set tms. list_ex (\<lambda>item. TechMatch_eq item tm) out) \<and>
      (\<forall>x\<in>set out. \<forall>n. implies_to T x n \<longrightarrow> n \<in> tm_names out)) \<and>
   (\<forall>frames tms e. resolve_implies frames tms T = Inl e \<longrightarrow>
      e = RecursionError \<or> (\<exists>n. e = KeyError n \<and> map_of T n = None)) \<and>
   (\<forall>x xs. (\<forall>tm\<in>set xs. \<not> excluded_by x tm) \<longrightarrow>
      resolve_excludes (x # xs) = x # resolve_excludes xs)"
proof (intro conjI allI impI ballI)
  fix frames seen mid tm rest pre imp post
  assume a: "0 < frames \<and> resolve_implies frames seen T = Inr mid \<and>
      \<not> list_ex (\<lambda>item. TechMatch_eq item tm) mid \<and>
      implies (tm_technology tm) = pre @ imp # post \<and>
      (\<forall>i\<in>set pre. map_of T (imply_name i) \<noteq> None) \<and>
      map_of T (imply_name imp) = None"
  then have i: "resolve_implies_inner frames T mid tm = Inl (KeyError (imply_name imp))"
    by (intro resolve_implies_inner_dangling[where pre = pre and post = post]) blast+
  have s: "resolve_implies_each frames T [] seen = Inr mid"
    using a by (simp add: resolve_implies_def)
  show "resolve_implies frames (seen @ tm # rest) T = Inl (KeyError (imply_name imp))"
    unfolding resolve_implies_def by (rule resolve_implies_each_abort[OF s i])
next
  fix frames impls tm ims e
  assume "\<not> list_ex (\<lambda>item. TechMatch_eq item tm) impls \<and>
      implied_matches T tm (implies (tm_technology tm)) = Inr ims \<and>
      resolve_implies_each frames T (impls @ [tm]) ims = Inl e"
  then show "resolve_implies_inner (Suc frames) T impls tm = Inl e"
    by (simp add: resolve_implies_inner.simps)
next
  fix frames impls xs mid x ys e
  assume "resolve_implies_each frames T impls xs = Inr mid \<and>
      resolve_implies_inner frames T mid x = Inl e"
  then have s: "resolve_implies_each frames T impls xs = Inr mid"
    and i: "resolve_implies_inner frames T mid x = Inl e"
    by simp_all
  show "resolve_implies_each frames T impls (xs @ x # ys) = Inl e"
    by (rule resolve_implies_each_abort[OF s i])
next
  fix frames seen mid tm rest e
  assume "resolve_implies frames seen T = Inr mid \<and> resolve_implies_inner frames T mid tm = Inl e"
  then have s: "resolve_implies_each frames T [] seen = Inr mid"
    and i: "resolve_implies_inner frames T mid tm = Inl e"
    by (simp_all add: resolve_implies_def)
  show "resolve_implies frames (seen @ tm # rest) T = Inl e"
    unfolding resolve_implies_def by (rule resolve_implies_each_abort[OF s i])
next
  fix frames tms out x i
  assume "resolve_implies frames tms T = Inr out" and "x \<in> set out"
    and "i \<in> set (implies (tm_technology x))"
  then show "map_of T (imply_name i) \<noteq> None"
    using resolve_implies_resolved(2)[of frames T "[]" tms out]
    by (simp add: resolve_implies_def)
next
  fix frames tms out tm
  assume "resolve_implies frames tms T = Inr out" and "tm \<in> set tms"
  then show "list_ex (\<lambda>item. TechMatch_eq item tm) out"
    using resolve_implies_expanded(2)[of frames T "[]" tms out]
    by (auto simp: resolve_implies_def list_ex_TechMatch_eq tm_names_def)
next
  fix frames tms out x n
  assume r: "resolve_implies frames tms T = Inr out" and x: "x \<in> set out"
    and n: "implies_to T x n"
  from x obtain k where k: "k < length out" "out ! k = x" by (auto simp: in_set_conv_nth)
  have "expanded T out k"
    using resolve_implies_expanded(2)[of frames T "[]" tms out] r k(1)
    by (simp add: resolve_implies_def)
  then show "n \<in> tm_names out" using n k(2) by (simp add: expanded_def)
next
  fix frames tms e
  assume "resolve_implies frames tms T = Inl e"
  then show "e = RecursionError \<or> (\<exists>n. e = KeyError n \<and> map_of T n = None)"
    unfolding resolve_implies_def by (rule resolve_implies_error(2))
next
  fix x xs
  assume "\<forall>tm\<in>set xs. \<not> excluded_by x tm"
  then have "filter (\<lambda>tm. \<not> excluded_by x tm) xs = xs" by (simp add: filter_id_conv)
  then show "resolve_excludes (x # xs) = x # resolve_excludes xs"
    by (simp add: resolve_excludes_Cons)
qed

theorem dangling_reference_aborts_resolution_witness:
  "resolve_implies 1000
     ([plain_match ''B'' [] [] 100] @
      plain_match ''A'' [\<lparr>imply_name = ''Ghost'', imply_confidence = 100\<rparr>] [] 100 #
      [plain_match ''C'' [] [] 100])
     [(''A'', plain_technology ''A'' [\<lparr>imply_name = ''Ghost'', imply_confidence = 100\<rparr>] [])] =
     Inl (KeyError ''Ghost'') \<and>
   resolve_implies 1000
     ([] @ plain_match ''A'' [\<lparr>imply_name = ''B'', imply_confidence = 100\<rparr>] [] 100 # [])
     [(''A'', plain_technology ''A'' [\<lparr>imply_name = ''B'', imply_confidence = 100\<rparr>] []),
      (''B'', plain_technology ''B'' [\<lparr>imply_name = ''Ghost'', imply_confidence = 100\<rparr>] [])] =
     Inl (KeyError ''Ghost'') \<and>
   resolve_implies_each 1000
     [(''A'', plain_technology ''A'' [\<lparr>imply_name = ''B'', imply_confidence = 100\<rparr>] []),
      (''B'', plain_technology ''B'' [\<lparr>imply_name = ''Ghost'', imply_confidence = 100\<rparr>] [])] []
     ([] @ plain_match ''A'' [\<lparr>imply_name = ''B'', imply_confidence = 100\<rparr>] [] 100 #
      [plain_match ''C'' [] [] 100]) =
     Inl (KeyError ''Ghost'') \<and>
   map_of [(''A'', plain_technology ''A'' [\<lparr>imply_name = ''B'', imply_confidence = 100\<rparr>] []),
           (''B'', plain_technology ''B'' [\<lparr>imply_name = ''Ghost'', imply_confidence = 100\<rparr>] [])]
     ''Ghost'' = None \<and>
   map_of cyclic_rules ''B'' \<noteq> None \<and>
   resolve_excludes (plain_match ''A'' [] [\<lparr>exclude_name = ''Ghost''\<rparr>] 100 #
                     [plain_match ''B'' [] [] 100]) =
     plain_match ''A'' [] [\<lparr>exclude_name = ''Ghost''\<rparr>] 100 # resolve_excludes [plain_match ''B'' [] [] 100]"
proof -
  let ?g = "\<lparr>imply_name = ''Ghost'', imply_confidence = 100\<rparr>"
  let ?b = "\<lparr>imply_name = ''B'', imply_confidence = 100\<rparr>"
  let ?T1 = "[(''A'', plain_technology ''A'' [?g] [])]"
  let ?T2 = "[(''A'', plain_technology ''A'' [?b] []), (''B'', plain_technology ''B'' [?g] [])]"
  let ?A1 = "plain_match ''A'' [?g] [] 100"
  let ?A2 = "plain_match ''A'' [?b] [] 100"
  let ?B2 = "plain_match ''B'' [?g] [] 100"
  let ?B = "plain_match ''B'' [] [] 100"
  let ?C = "plain_match ''C'' [] [] 100"
  let ?X = "plain_match ''A'' [] [\<lparr>exclude_name = ''Ghost''\<rparr>] 100"
  let ?cA = "plain_match ''A'' [\<lparr>imply_name = ''B'', imply_confidence = 50\<rparr>] [] 80"
  let ?cB = "plain_match ''B'' [\<lparr>imply_name = ''A'', imply_confidence = 100\<rparr>] [] 50"
  note main1 = dangling_reference_aborts_resolution[where T = ?T1]
  note main2 = dangling_reference_aborts_resolution[where T = ?T2]
  note main3 = dangling_reference_aborts_resolution[where T = cyclic_rules]
  have h1: "0 < (1000::nat) \<and> resolve_implies 1000 [?B] ?T1 = Inr [?B] \<and>
      \<not> list_ex (\<lambda>item. TechMatch_eq item ?A1) [?B] \<and>
      implies (tm_technology ?A1) = [] @ ?g # [] \<and>
      (\<forall>i\<in>set []. map_of ?T1 (imply_name i) \<noteq> None) \<and>
      map_of ?T1 (imply_name ?g) = None"
    by (simp add: resolve_implies_def resolve_implies_inner_unfold TechMatch_eq_def
        plain_match_def plain_technology_def)
  have c1: "resolve_implies 1000 ([?B] @ ?A1 # [?C]) ?T1 = Inl (KeyError (imply_name ?g))"
    using main1[THEN conjunct1, THEN spec, THEN spec, THEN spec, THEN spec, THEN spec, THEN spec,
                THEN spec, THEN spec, THEN mp, OF h1] .
  have h2: "\<not> list_ex (\<lambda>item. TechMatch_eq item ?A2) [] \<and>
      implied_matches ?T2 ?A2 (implies (tm_technology ?A2)) = Inr [?B2] \<and>
      resolve_implies_each 999 ?T2 ([] @ [?A2]) [?B2] = Inl (KeyError ''Ghost'')"
    by (simp add: resolve_implies_inner_unfold TechMatch_eq_def plain_match_def plain_technology_def)
  have c2: "resolve_implies_inner (Suc 999) ?T2 [] ?A2 = Inl (KeyError ''Ghost'')"
    using main2[THEN conjunct2, THEN conjunct1, THEN spec, THEN spec, THEN spec, THEN spec,
                THEN spec, THEN mp, OF h2] .
  have h3e: "resolve_implies_each 1000 ?T2 [] [] = Inr [] \<and>
             resolve_implies_inner 1000 ?T2 [] ?A2 = Inl (KeyError ''Ghost'')"
    using c2 by simp
  have c3e: "resolve_implies_each 1000 ?T2 [] ([] @ ?A2 # [?C]) = Inl (KeyError ''Ghost'')"
    using main2[THEN conjunct2, THEN conjunct2, THEN conjunct1, THEN spec, THEN spec, THEN spec,
                THEN spec, THEN spec, THEN spec, THEN spec, THEN mp, OF h3e] .
  have h3: "resolve_implies 1000 [] ?T2 = Inr [] \<and>
            resolve_implies_inner 1000 ?T2 [] ?A2 = Inl (KeyError ''Ghost'')"
    using c2 by (simp add: resolve_implies_def)
  have c3: "resolve_implies 1000 ([] @ ?A2 # []) ?T2 = Inl (KeyError ''Ghost'')"
    using main2[THEN conjunct2, THEN conjunct2, THEN conjunct2, THEN conjunct1, THEN spec, THEN spec,
                THEN spec, THEN spec, THEN spec, THEN spec, THEN mp, OF h3] .
  have h4: "resolve_implies 1000 [?cA] cyclic_rules = Inr [?cA, ?cB]"
    by (simp add: resolve_implies_def resolve_implies_inner_unfold TechMatch_eq_def
        cyclic_rules_def plain_match_def plain_technology_def)
  have "\<forall>x\<in>set [?cA, ?cB]. \<forall>i\<in>set (implies (tm_technology x)). map_of cyclic_rules (imply_name i) \<noteq> None"
    using main3[THEN conjunct2, THEN conjunct2, THEN conjunct2, THEN conjunct2, THEN conjunct1,
                THEN spec, THEN spec, THEN spec, THEN mp, OF h4, THEN conjunct1] .
  then have c4: "map_of cyclic_rules ''B'' \<noteq> None"
    by (simp add: plain_match_def plain_technology_def)
  have h5: "resolve_implies 1000 [?A2] ?T2 = Inl (KeyError ''Ghost'')" using c3 by simp
  have "KeyError ''Ghost'' = RecursionError \<or> (\<exists>n. KeyError ''Ghost'' = KeyError n \<and> map_of ?T2 n = None)"
    using main2[THEN conjunct2, THEN conjunct2, THEN conjunct2, THEN conjunct2, THEN conjunct2,
                THEN conjunct1, THEN spec, THEN spec, THEN spec, THEN mp, OF h5] .
  then have c5: "map_of ?T2 ''Ghost'' = None" by auto
  have h6: "\<forall>tm\<in>set [?B]. \<not> excluded_by ?X tm"
    by (simp add: excluded_by_def plain_match_def plain_technology_def)
  have c6: "resolve_excludes (?X # [?B]) = ?X # resolve_excludes [?B]"
    using main1[THEN conjunct2, THEN conjunct2, THEN conjunct2, THEN conjunct2, THEN conjunct2,
                THEN conjunct2, THEN spec, THEN spec, THEN mp, OF h6] .
  show ?thesis using c1 c3 c3e c4 c5 c6 by simp
qed


text \<open>
  The claim as stated fails: a dangling \<^verbatim>\<open>implies\<close> entry surfaces as the dictionary's
  \<^verbatim>\<open>KeyError\<close>, and a dangling \<^verbatim>\<open>excludes\<close> entry is not reported at all.
\<close>

theorem dangling_reference_not_reported_distinctly:
  "resolve_implies 1000 [plain_match ''A'' [\<lparr>imply_name = ''Ghost'', imply_confidence = 100\<rparr>] [] 100]
     [(''A'', plain_technology ''A'' [\<lparr>imply_name = ''Ghost'', imply_confidence = 100\<rparr>] [])] =
     Inl (KeyError ''Ghost'') \<and>
   resolve_implies 1000 [plain_match ''A'' [] [\<lparr>exclude_name = ''Ghost''\<rparr>] 100]
     [(''A'', plain_technology ''A'' [] [\<lparr>exclude_name = ''Ghost''\<rparr>])] =
     Inr [plain_match ''A'' [] [\<lparr>exclude_name = ''Ghost''\<rparr>] 100] \<and>
   resolve_excludes [plain_match ''A'' [] [\<lparr>exclude_name = ''Ghost''\<rparr>] 100] =
     [plain_match ''A'' [] [\<lparr>exclude_name = ''Ghost''\<rparr>] 100]"
  by (simp add: resolve_implies_def resolve_implies_inner_unfold TechMatch_eq_def
      resolve_excludes_def Let_def plain_match_def plain_technology_def)


section \<open>Properties of the confidence aggregator\<close>

lemma aggregate_fold:
  "aggregate pm pms (c, v) =
     (running_confidence (hits_of (name (pm_technology pm)) pms) c,
      running_version (hits_of (name (pm_technology pm)) pms) v)"
  by (induction pms arbitrary: c v)
     (auto simp: PatternMatch_eq_def hits_of_def running_confidence_def running_version_def)

lemma running_confidence_sum:
  "\<forall>pt\<in>set hits. 0 \<le> p_confidence (pm_pattern pt) \<Longrightarrow> 0 \<le> c \<Longrightarrow> c \<le> 100 \<Longrightarrow>
   running_confidence hits c = min 100 (c + sum_list (map (\<lambda>pt. p_confidence (pm_pattern pt)) hits))"
proof (induction hits arbitrary: c)
  case Nil
  then show ?case by (simp add: running_confidence_def)
next
  case (Cons a hits)
  let ?x = "p_confidence (pm_pattern a)"
  let ?s = "sum_list (map (\<lambda>pt. p_confidence (pm_pattern pt)) hits)"
  have x: "0 \<le> ?x" and rest: "\<forall>pt\<in>set hits. 0 \<le> p_confidence (pm_pattern pt)"
    using Cons.prems(1) by simp_all
  have s: "0 \<le> ?s" using rest by (induction hits) auto
  have "running_confidence (a # hits) c = running_confidence hits (min 100 (c + ?x))"
    by (simp add: running_confidence_def)
  also have "\<dots> = min 100 (min 100 (c + ?x) + ?s)"
    using rest x Cons.prems(2) by (intro Cons.IH) simp_all
  also have "\<dots> = min 100 (c + sum_list (map (\<lambda>pt. p_confidence (pm_pattern pt)) (a # hits)))"
    using s by simp
  finally show ?case .
qed

lemma running_version_Cons:
  "running_version (a # hits) v =
     running_version hits
       (if length v < length (pm_version a) \<and> length (pm_version a) \<le> 10 then pm_version a else v)"
  by (simp add: running_version_def)

lemma candidates_Cons:
  "candidates (a # hits) =
     (if pm_version a \<noteq> [] \<and> length (pm_version a) \<le> 10
      then pm_version a # candidates hits else candidates hits)"
  by (simp add: candidates_def)

lemma running_version_no_candidate:
  "length v \<le> 10 \<Longrightarrow> \<forall>x\<in>set (candidates hits). length x \<le> length v \<Longrightarrow> running_version hits v = v"
proof (induction hits)
  case Nil
  then show ?case by (simp add: running_version_def)
next
  case (Cons a hits)
  have keep: "\<not> (length v < length (pm_version a) \<and> length (pm_version a) \<le> 10)"
    using Cons.prems(2) by (auto simp: candidates_Cons split: if_splits)
  have "\<forall>x\<in>set (candidates hits). length x \<le> length v"
    using Cons.prems(2) by (auto simp: candidates_Cons split: if_splits)
  then have "running_version hits v = v" using Cons.prems(1) by (intro Cons.IH) simp_all
  then show ?case unfolding running_version_Cons using keep by (simp only: if_False)
qed

lemma running_version_first_longest:
  "length v \<le> 10 \<Longrightarrow> \<exists>x\<in>set (candidates hits). length v < length x \<Longrightarrow>
   \<exists>pre post. candidates hits = pre @ running_version hits v # post \<and>
      (\<forall>x\<in>set pre. length x < length (running_version hits v)) \<and>
      (\<forall>x\<in>set post. length x \<le> length (running_version hits v)) \<and>
      length v < length (running_version hits v)"
proof (induction hits arbitrary: v)
  case Nil
  then show ?case by (simp add: candidates_def)
next
  case (Cons a hits)
  let ?w = "pm_version a"
  show ?case
  proof (cases "length v < length ?w \<and> length ?w \<le> 10")
    case True
    then have cand: "candidates (a # hits) = ?w # candidates hits" by (auto simp: candidates_Cons)
    have step: "running_version (a # hits) v = running_version hits ?w"
      unfolding running_version_Cons using True by simp
    show ?thesis
    proof (cases "\<exists>x\<in>set (candidates hits). length ?w < length x")
      case False
      then have "\<forall>x\<in>set (candidates hits). length x \<le> length ?w" by auto
      then have "running_version hits ?w = ?w" using True by (intro running_version_no_candidate) simp_all
      then have "candidates (a # hits) = [] @ running_version (a # hits) v # candidates hits"
        using cand step by simp
      moreover have "\<forall>x\<in>set (candidates hits). length x \<le> length (running_version (a # hits) v)"
        using False step \<open>running_version hits ?w = ?w\<close> by auto
      moreover have "length v < length (running_version (a # hits) v)"
        using True step \<open>running_version hits ?w = ?w\<close> by simp
      ultimately show ?thesis by (metis empty_iff list.set(1))
    next
      case longer: True
      from True have "length ?w \<le> 10" by simp
      from Cons.IH[OF this longer] obtain pre post where
        c: "candidates hits = pre @ running_version hits ?w # post" and
        p: "\<forall>x\<in>set pre. length x < length (running_version hits ?w)" and
        q: "\<forall>x\<in>set post. length x \<le> length (running_version hits ?w)" and
        l: "length ?w < length (running_version hits ?w)" by blast
      have "candidates (a # hits) = (?w # pre) @ running_version (a # hits) v # post"
        using cand c step by simp
      moreover have "\<forall>x\<in>set (?w # pre). length x < length (running_version (a # hits) v)"
        using p l step by simp
      moreover have "\<forall>x\<in>set post. length x \<le> length (running_version (a # hits) v)"
        using q step by simp
      moreover have "length v < length (running_version (a # hits) v)"
        using True l step by simp
      ultimately show ?thesis by blast
    qed
  next
    case False
    then have step: "running_version (a # hits) v = running_version hits v"
      unfolding running_version_Cons by (simp only: if_False)
    have ex: "\<exists>x\<in>set (candidates hits). length v < length x"
      using Cons.prems(2) False by (auto simp: candidates_Cons split: if_splits)
    from Cons.IH[OF Cons.prems(1) ex] obtain pre post where
      c: "candidates hits = pre @ running_version hits v # post" and
      p: "\<forall>x\<in>set pre. length x < length (running_version hits v)" and
      q: "\<forall>x\<in>set post. length x \<le> length (running_version hits v)" and
      l: "length v < length (running_version hits v)" by blast
    show ?thesis
    proof (cases "?w \<noteq> [] \<and> length ?w \<le> 10")
      case True
      then have cand: "candidates (a # hits) = ?w # candidates hits" by (simp add: candidates_Cons)
      have "length ?w \<le> length v" using False True by simp
      then have "length ?w < length (running_version hits v)" using l by simp
      then have "\<forall>x\<in>set (?w # pre). length x < length (running_version (a # hits) v)"
        using p step by simp
      moreover have "candidates (a # hits) = (?w # pre) @ running_version (a # hits) v # post"
        using cand c step by simp
      ultimately show ?thesis using q l step by metis
    next
      case False
      then have "candidates (a # hits) = candidates hits" by (auto simp: candidates_Cons)
      then show ?thesis using c p q l step by metis
    qed
  qed
qed

lemma extract_loop_Cons:
  "extract_loop all (pm # rest) acc =
     (if name (pm_technology pm) \<in> tm_names acc then extract_loop all rest acc
      else extract_loop all rest (acc @ [new_match all pm]))"
proof -
  have "list_ex (\<lambda>item. TechMatch_eq_pm item pm) acc \<longleftrightarrow> name (pm_technology pm) \<in> tm_names acc"
    by (induction acc) (auto simp: TechMatch_eq_pm_def tm_names_def)
  then show ?thesis by (simp add: new_match_def split: prod.splits)
qed

lemma extract_loop_distinct:
  "distinct (map (\<lambda>tm. name (tm_technology tm)) acc) \<Longrightarrow>
   distinct (map (\<lambda>tm. name (tm_technology tm)) (extract_loop all xs acc))"
proof (induction xs arbitrary: acc)
  case Nil
  then show ?case by simp
next
  case (Cons pm xs)
  show ?case
  proof (cases "name (pm_technology pm) \<in> tm_names acc")
    case True
    then show ?thesis using Cons by (simp only: extract_loop_Cons if_True)
  next
    case False
    then have "distinct (map (\<lambda>tm. name (tm_technology tm)) (acc @ [new_match all pm]))"
      using Cons.prems by (simp add: tm_names_def new_match_def)
    then show ?thesis using Cons.IH False by (simp only: extract_loop_Cons if_False)
  qed
qed

lemma extract_loop_names:
  "tm_names (extract_loop all xs acc) = tm_names acc \<union> (\<lambda>pm. name (pm_technology pm)) ` set xs"
proof (induction xs arbitrary: acc)
  case Nil
  then show ?case by simp
next
  case (Cons pm xs)
  show ?case
  proof (cases "name (pm_technology pm) \<in> tm_names acc")
    case True
    then show ?thesis using Cons.IH[of acc] by (auto simp only: extract_loop_Cons if_True list.set image_insert)
  next
    case False
    have "tm_names (acc @ [new_match all pm]) = insert (name (pm_technology pm)) (tm_names acc)"
      by (simp add: tm_names_def new_match_def)
    then show ?thesis using Cons.IH[of "acc @ [new_match all pm]"] False
      by (auto simp only: extract_loop_Cons if_False list.set image_insert)
  qed
qed

lemma extract_loop_origin:
  "tm \<in> set (extract_loop all xs acc) \<Longrightarrow> tm \<in> set acc \<or> (\<exists>pm\<in>set xs. tm = new_match all pm)"
proof (induction xs arbitrary: acc)
  case Nil
  then show ?case by simp
next
  case (Cons pm xs)
  show ?case
  proof (cases "name (pm_technology pm) \<in> tm_names acc")
    case True
    then have "tm \<in> set (extract_loop all xs acc)" using Cons.prems by (simp only: extract_loop_Cons if_True)
    from Cons.IH[OF this] show ?thesis by auto
  next
    case False
    then have "tm \<in> set (extract_loop all xs (acc @ [new_match all pm]))"
      using Cons.prems by (simp only: extract_loop_Cons if_False)
    from Cons.IH[OF this] show ?thesis by auto
  qed
qed

lemma distinct_map_filter_single:
  "distinct (map f xs) \<Longrightarrow> x \<in> set xs \<Longrightarrow> filter (\<lambda>y. f y = f x) xs = [x]"
proof (induction xs)
  case Nil
  then show ?case by simp
next
  case (Cons a xs)
  show ?case
  proof (cases "a = x")
    case True
    have "f x \<notin> f ` set xs" using Cons.prems(1) True by simp
    then have "\<forall>y\<in>set xs. f y \<noteq> f x" by (metis imageI)
    then have "filter (\<lambda>y. f y = f x) xs = []"
      by (simp add: filter_empty_conv)
    then show ?thesis using True by simp
  next
    case False
    then have "x \<in> set xs" using Cons.prems(2) by simp
    then have "f a \<noteq> f x" using Cons.prems(1) by auto
    then show ?thesis using Cons \<open>x \<in> set xs\<close> by simp
  qed
qed

lemma extract_techno_matches_single:
  assumes "pm \<in> set pms"
  shows "\<exists>pm'\<in>set pms. name (pm_technology pm') = name (pm_technology pm) \<and>
           filter (\<lambda>tm. name (tm_technology tm) = name (pm_technology pm)) (extract_techno_matches pms)
             = [new_match pms pm']"
proof -
  let ?out = "extract_techno_matches pms"
  let ?n = "name (pm_technology pm)"
  have d: "distinct (map (\<lambda>tm. name (tm_technology tm)) ?out)"
    unfolding extract_techno_matches_def by (rule extract_loop_distinct) simp
  have "?n \<in> tm_names ?out"
    unfolding extract_techno_matches_def extract_loop_names using assms by (simp add: tm_names_def)
  then obtain tm where tm: "tm \<in> set ?out" "name (tm_technology tm) = ?n"
    by (auto simp: tm_names_def)
  from tm(1) obtain pm' where pm': "pm' \<in> set pms" "tm = new_match pms pm'"
    unfolding extract_techno_matches_def by (auto dest: extract_loop_origin)
  have "filter (\<lambda>y. name (tm_technology y) = name (tm_technology tm)) ?out = [tm]"
    using d tm(1) by (rule distinct_map_filter_single)
  then have "filter (\<lambda>y. name (tm_technology y) = ?n) ?out = [new_match pms pm']"
    using tm(2) pm'(2) by simp
  moreover have "name (pm_technology pm') = ?n" using tm(2) pm'(2) by (simp add: new_match_def)
  ultimately show ?thesis using pm'(1) by blast
qed


text \<open>
  Claim C3, as amended.  For every list of pattern matches and every technology with a hit
  in it, \<^const>\<open>extract_techno_matches\<close> returns exactly one \<^verbatim>\<open>TechMatch\<close> of that name.  Its
  confidence is the running total over the entries of the list for that technology, clamped
  to at most 100 at each step; when the declared confidences of those entries are not
  negative, this is the minimum of 100 and their sum.  Its version is the empty string when
  no entry has a non-empty version of length at most 10; otherwise it is one of these
  candidates, strictly longer than every candidate before it and at least as long as every
  candidate after it.
\<close>

theorem extract_techno_matches_aggregates:
  assumes "pm \<in> set pattern_matches"
  shows "\<exists>tm. filter (\<lambda>tm. name (tm_technology tm) = name (pm_technology pm))
                (extract_techno_matches pattern_matches) = [tm] \<and>
           tm_confidence tm =
             running_confidence (hits_of (name (pm_technology pm)) pattern_matches) 0 \<and>
           ((\<forall>pt\<in>set (hits_of (name (pm_technology pm)) pattern_matches).
                0 \<le> p_confidence (pm_pattern pt)) \<longrightarrow>
              tm_confidence tm =
                min 100 (sum_list (map (\<lambda>pt. p_confidence (pm_pattern pt))
                                    (hits_of (name (pm_technology pm)) pattern_matches)))) \<and>
           (candidates (hits_of (name (pm_technology pm)) pattern_matches) = [] \<longrightarrow>
              tm_version tm = []) \<and>
           (candidates (hits_of (name (pm_technology pm)) pattern_matches) \<noteq> [] \<longrightarrow>
              (\<exists>pre post.
                 candidates (hits_of (name (pm_technology pm)) pattern_matches) =
                   pre @ tm_version tm # post \<and>
                 (\<forall>v\<in>set pre. length v < length (tm_version tm)) \<and>
                 (\<forall>v\<in>set post. length v \<le> length (tm_version tm))))"
proof -
  let ?n = "name (pm_technology pm)"
  let ?hits = "hits_of ?n pattern_matches"
  from extract_techno_matches_single[OF assms] obtain pm' where
    pm': "pm' \<in> set pattern_matches" "name (pm_technology pm') = ?n" and
    f: "filter (\<lambda>tm. name (tm_technology tm) = ?n) (extract_techno_matches pattern_matches)
          = [new_match pattern_matches pm']" by blast
  let ?tm = "new_match pattern_matches pm'"
  have c: "tm_confidence ?tm = running_confidence ?hits 0"
    and v: "tm_version ?tm = running_version ?hits []"
    using pm'(2) by (simp_all add: new_match_def aggregate_fold)
  have s: "(\<forall>pt\<in>set ?hits. 0 \<le> p_confidence (pm_pattern pt)) \<longrightarrow>
             tm_confidence ?tm = min 100 (sum_list (map (\<lambda>pt. p_confidence (pm_pattern pt)) ?hits))"
    using running_confidence_sum[of ?hits 0] c by simp
  have e: "candidates ?hits = [] \<longrightarrow> tm_version ?tm = []"
    using running_version_no_candidate[of "[]" ?hits] v by simp
  have l: "candidates ?hits \<noteq> [] \<longrightarrow>
              (\<exists>pre post. candidates ?hits = pre @ tm_version ?tm # post \<and>
                 (\<forall>v\<in>set pre. length v < length (tm_version ?tm)) \<and>
                 (\<forall>v\<in>set post. length v \<le> length (tm_version ?tm)))"
  proof
    assume "candidates ?hits \<noteq> []"
    then obtain x where "x \<in> set (candidates ?hits)" by (cases "candidates ?hits") auto
    moreover from this have "x \<noteq> []" by (simp add: candidates_def)
    ultimately have "\<exists>x\<in>set (candidates ?hits). length ([]::string) < length x" by auto
    from running_version_first_longest[OF _ this]
    show "\<exists>pre post. candidates ?hits = pre @ tm_version ?tm # post \<and>
                 (\<forall>v\<in>set pre. length v < length (tm_version ?tm)) \<and>
                 (\<forall>v\<in>set post. length v \<le> length (tm_version ?tm))"
      unfolding v by auto
  qed
  show ?thesis using f c s e l by blast
qed

theorem extract_techno_matches_aggregates_witness:
  "extract_techno_matches
     [hit ''X'' ''a'' 60 ''1.2'', hit ''X'' ''b'' 70 ''1.10'', hit ''Y'' ''c'' 30 [],
      hit ''X'' ''d'' 0 ''2.20''] =
     [\<lparr>tm_technology = plain_technology ''X'' [] [], tm_confidence = 100, tm_version = ''1.10''\<rparr>,
      \<lparr>tm_technology = plain_technology ''Y'' [] [], tm_confidence = 30, tm_version = []\<rparr>] \<and>
   (\<exists>tm. filter (\<lambda>tm. name (tm_technology tm) = ''X'')
            (extract_techno_matches
               [hit ''X'' ''a'' 60 ''1.2'', hit ''X'' ''b'' 70 ''1.10'', hit ''Y'' ''c'' 30 [],
                hit ''X'' ''d'' 0 ''2.20'']) = [tm] \<and>
          tm_confidence tm = min 100 (60 + 70 + 0) \<and>
          (\<exists>pre post. [''1.2'', ''1.10'', ''2.20''] = pre @ tm_version tm # post \<and>
             (\<forall>v\<in>set pre. length v < length (tm_version tm)) \<and>
             (\<forall>v\<in>set post. length v \<le> length (tm_version tm))))"
proof -
  let ?ex = "[hit ''X'' ''a'' 60 ''1.2'', hit ''X'' ''b'' 70 ''1.10'', hit ''Y'' ''c'' 30 [],
              hit ''X'' ''d'' 0 ''2.20'']"
  have m: "hit ''X'' ''a'' 60 ''1.2'' \<in> set ?ex" by simp
  have n: "name (pm_technology (hit ''X'' ''a'' 60 ''1.2'')) = ''X''" by (simp add: fixture_eval)
  have h: "hits_of ''X'' ?ex = [hit ''X'' ''a'' 60 ''1.2'', hit ''X'' ''b'' 70 ''1.10'', hit ''X'' ''d'' 0 ''2.20'']"
    by (simp add: hits_of_def fixture_eval)
  have nonneg: "\<forall>pt\<in>set (hits_of ''X'' ?ex). 0 \<le> p_confidence (pm_pattern pt)"
    unfolding h by (simp add: fixture_eval)
  have c: "candidates (hits_of ''X'' ?ex) = [''1.2'', ''1.10'', ''2.20'']"
    unfolding h by (simp add: candidates_def fixture_eval)
  then have ne: "candidates (hits_of ''X'' ?ex) \<noteq> []" by simp
  have r: "extract_techno_matches ?ex =
     [\<lparr>tm_technology = plain_technology ''X'' [] [], tm_confidence = 100, tm_version = ''1.10''\<rparr>,
      \<lparr>tm_technology = plain_technology ''Y'' [] [], tm_confidence = 30, tm_version = []\<rparr>]"
    by (simp add: extract_techno_matches_def TechMatch_eq_pm_def PatternMatch_eq_def fixture_eval)
  from extract_techno_matches_aggregates[OF m, unfolded n] nonneg ne obtain tm where
    f1: "filter (\<lambda>tm. name (tm_technology tm) = ''X'') (extract_techno_matches ?ex) = [tm]" and
    f2: "tm_confidence tm = min 100 (sum_list (map (\<lambda>pt. p_confidence (pm_pattern pt)) (hits_of ''X'' ?ex)))" and
    f3: "\<exists>pre post. candidates (hits_of ''X'' ?ex) = pre @ tm_version tm # post \<and>
             (\<forall>v\<in>set pre. length v < length (tm_version tm)) \<and>
             (\<forall>v\<in>set post. length v \<le> length (tm_version tm))"
    by blast
  have f2': "tm_confidence tm = min 100 (60 + 70 + 0)"
    using f2 unfolding h by (simp add: fixture_eval)
  have f3': "\<exists>pre post. [''1.2'', ''1.10'', ''2.20''] = pre @ tm_version tm # post \<and>
             (\<forall>v\<in>set pre. length v < length (tm_version tm)) \<and>
             (\<forall>v\<in>set post. length v \<le> length (tm_version tm))"
    using f3 unfolding c .
  have "\<exists>tm. filter (\<lambda>tm. name (tm_technology tm) = ''X'') (extract_techno_matches ?ex) = [tm] \<and>
          tm_confidence tm = min 100 (60 + 70 + 0) \<and>
          (\<exists>pre post. [''1.2'', ''1.10'', ''2.20''] = pre @ tm_version tm # post \<and>
             (\<forall>v\<in>set pre. length v < length (tm_version tm)) \<and>
             (\<forall>v\<in>set post. length v \<le> length (tm_version tm)))"
    using f1 f2' f3' by blast
  with r show ?thesis by blast
qed


text \<open>
  The claim as stated fails for a negative declared confidence (accepted by the loader's
  \<^verbatim>\<open>int\<close>), where clamping at each step is not the minimum of 100 and the sum, and for a
  list that holds a hit twice: \<^const>\<open>extract_techno_matches\<close> removes no duplicate hit, the
  set is built by its caller.
\<close>

theorem extract_techno_matches_not_min_of_sum:
  "extract_techno_matches
     [hit ''X'' ''a'' 100 [], hit ''X'' ''b'' 100 [], hit ''X'' ''c'' (- 50) []] =
     [\<lparr>tm_technology = plain_technology ''X'' [] [], tm_confidence = 50, tm_version = []\<rparr>] \<and>
   min 100 (sum_list (map (\<lambda>pt. p_confidence (pm_pattern pt))
     [hit ''X'' ''a'' 100 [], hit ''X'' ''b'' 100 [], hit ''X'' ''c'' (- 50) []])) = 100 \<and>
   extract_techno_matches [hit ''X'' ''a'' 30 [], hit ''X'' ''a'' 30 []] =
     [\<lparr>tm_technology = plain_technology ''X'' [] [], tm_confidence = 60, tm_version = []\<rparr>] \<and>
   min 100 (sum_list (map (\<lambda>pt. p_confidence (pm_pattern pt))
     (remdups [hit ''X'' ''a'' 30 [], hit ''X'' ''a'' 30 []]))) = 30"
  by (simp add: extract_techno_matches_def TechMatch_eq_pm_def PatternMatch_eq_def fixture_eval)


section \<open>Properties of PatternMatch equality\<close>

lemma PatternMatch_eq_name_only:
  "PatternMatch_eq a b \<longleftrightarrow> name (pm_technology a) = name (pm_technology b)"
  by (simp add: PatternMatch_eq_def)

text \<open>
  Claim C1.  Two hits of one technology from different patterns are equal for
  \<^verbatim>\<open>PatternMatch.__eq__\<close>, although their triples of technology name, pattern key and
  pattern value differ.
\<close>

theorem PatternMatch_eq_ignores_pattern:
  "PatternMatch_eq (hit ''X'' ''a'' 60 []) (hit ''X'' ''b'' 70 []) \<and>
   PatternMatch_key (hit ''X'' ''a'' 60 []) \<noteq> PatternMatch_key (hit ''X'' ''b'' 70 [])"
  by (simp add: PatternMatch_eq_def PatternMatch_key_def fixture_eval)

text \<open>
  Hits with the same triple have the same hash and are equal, so the set keeps the first of
  them whatever the hash function: the same pattern firing on two values of a cookie counts
  once.
\<close>

lemma set_add_same_key:
  "PatternMatch_key a = PatternMatch_key b \<Longrightarrow> fold (set_add h) [a, b] [] = [a]"
  by (simp add: set_add_def PatternMatch_hash_def PatternMatch_eq_def PatternMatch_key_def)

section \<open>Properties of the version resolver\<close>

lemmas str_eval = bs_def str_of_nat.simps ternary_at_def truthy_def replace_def strip_def
  is_space_def resolve_version_def Let_def

text \<open>The cases of the repository's the test file.\<close>

lemma resolve_version_test_ternary_false:
  "resolve_version (bs # ''1?Enterprise:Community'')
     (\<lambda>v. Some (''skin/frontend/default'', [None])) ''/skin/frontend/default'' = ''Community''"
  by (simp add: str_eval)

lemma resolve_version_test_ternary_true:
  "resolve_version (bs # ''1?Enterprise:Community'')
     (\<lambda>v. Some (''skin/frontend/enterprise'', [Some ''enterprise'']))
     ''/skin/frontend/enterprise'' = ''Enterprise''"
  by (simp add: str_eval)

lemma resolve_version_test_group:
  "resolve_version (bs # ''1'') (\<lambda>v. Some (''3.3/mathjax.js'', [Some ''3.3''])) ''3.3/mathjax.js''
     = ''3.3''"
  by (simp add: str_eval)

text \<open>
  When the ternary of an index is found in the template, the working string that the
  earlier indices produced has no part in the result of the step.
\<close>

lemma resolve_version_loop_ternary_discards:
  "ternary_search (bs # str_of_nat index @ ''?'') version = Some m \<Longrightarrow>
   resolve_version_loop version index (match # matches) resolved1 =
   resolve_version_loop version index (match # matches) resolved2"
  by (cases m) (simp add: Let_def)

text \<open>
  Claim C2.  Template \<^verbatim>\<open>\1 \2?beta:\<close>, a match with groups \<^verbatim>\<open>1.2\<close> and \<^verbatim>\<open>b\<close>: index 1
  turns the working string into \<^verbatim>\<open>1.2 \2?beta:\<close>; at index 2 the ternary is replaced in the
  template, not in the working string, and the result is \<^verbatim>\<open>\1 beta\<close>.
\<close>

theorem resolve_version_ternary_rebuilds_from_template:
  "resolve_version (bs # ''1 '' @ bs # ''2?beta:'')
     (\<lambda>v. Some (''1.2b'', [Some ''1.2'', Some ''b''])) ''1.2b'' = bs # ''1 beta''"
  by (simp add: str_eval)

section \<open>Properties of the signal matcher\<close>

lemma match_patterns_none:
  "\<forall>p\<in>set ps. p_regex p v = None \<Longrightarrow> match_patterns ps t v = []"
  by (induction ps) auto

lemma match_pairs_empty: "match_pairs t field [] = []"
proof -
  have "pairs_local field [] = []" by (simp add: pairs_local_def)
  then show ?thesis by (simp add: match_pairs_def split_def)
qed

lemma match_list_empty: "match_list t field [] = []"
  by (simp add: match_list_def)

lemma applied_empty_signal:
  "f t [] = [] \<Longrightarrow>
   concat (map (\<lambda>func. func t) (match_func f s)) = concat (map (\<lambda>func. func t) (match_func_unguarded f s))"
  by (simp add: match_func_def match_func_unguarded_def split: option.splits)

lemma concat_map_append:
  "concat (map g (xs @ ys)) = concat (map g xs) @ concat (map g ys)"
  by simp

text \<open>
  Claim C8, as amended.  \<^const>\<open>match_all\<close> and the matcher without short-circuit return the
  same list of pattern matches for all signals, provided that, when the url (the html) is the
  empty string, no url (html) pattern of the rule set matches the empty string.  For an
  empty list of scripts and for empty cookies, headers, metas and js variables nothing is
  required.
\<close>

theorem match_all_short_circuit:
  assumes "url_s = Some [] \<longrightarrow> (\<forall>t\<in>set (map snd technologies). \<forall>p\<in>set (url t). p_regex p [] = None)"
    and "html_s = Some [] \<longrightarrow> (\<forall>t\<in>set (map snd technologies). \<forall>p\<in>set (html t). p_regex p [] = None)"
  shows "match_all technologies url_s html_s scripts_s cookies_s metas_s headers_s js_vars_s =
         match_all_unguarded technologies url_s html_s scripts_s cookies_s metas_s headers_s js_vars_s"
proof -
  have per: "concat (map (\<lambda>func. func t)
               (match_func match_url url_s @ match_func match_headers headers_s @
                match_func match_cookies cookies_s @ match_func match_html html_s @
                match_func match_metas metas_s @ match_func match_scripts scripts_s @
                match_func match_js_vars js_vars_s)) =
             concat (map (\<lambda>func. func t)
               (match_func_unguarded match_url url_s @ match_func_unguarded match_headers headers_s @
                match_func_unguarded match_cookies cookies_s @ match_func_unguarded match_html html_s @
                match_func_unguarded match_metas metas_s @ match_func_unguarded match_scripts scripts_s @
                match_func_unguarded match_js_vars js_vars_s))"
    if t: "t \<in> set (map snd technologies)" for t
  proof -
    have u: "concat (map (\<lambda>func. func t) (match_func match_url url_s)) =
             concat (map (\<lambda>func. func t) (match_func_unguarded match_url url_s))"
    proof (cases "url_s = Some []")
      case True
      then have "\<forall>p\<in>set (url t). p_regex p [] = None" using assms(1) t by blast
      then have "match_url t [] = []"
        by (simp add: match_url_def match_str_def match_patterns_none)
      then show ?thesis by (rule applied_empty_signal)
    next
      case False
      then show ?thesis
        by (auto simp: match_func_def match_func_unguarded_def split: option.splits)
    qed
    have h: "concat (map (\<lambda>func. func t) (match_func match_html html_s)) =
             concat (map (\<lambda>func. func t) (match_func_unguarded match_html html_s))"
    proof (cases "html_s = Some []")
      case True
      then have "\<forall>p\<in>set (html t). p_regex p [] = None" using assms(2) t by blast
      then have "match_html t [] = []"
        by (simp add: match_html_def match_str_def match_patterns_none)
      then show ?thesis by (rule applied_empty_signal)
    next
      case False
      then show ?thesis
        by (auto simp: match_func_def match_func_unguarded_def split: option.splits)
    qed
    have hd: "concat (map (\<lambda>func. func t) (match_func match_headers headers_s)) =
              concat (map (\<lambda>func. func t) (match_func_unguarded match_headers headers_s))"
      by (rule applied_empty_signal) (simp add: match_headers_def match_pairs_empty)
    have ck: "concat (map (\<lambda>func. func t) (match_func match_cookies cookies_s)) =
              concat (map (\<lambda>func. func t) (match_func_unguarded match_cookies cookies_s))"
      by (rule applied_empty_signal) (simp add: match_cookies_def match_pairs_empty)
    have mt: "concat (map (\<lambda>func. func t) (match_func match_metas metas_s)) =
              concat (map (\<lambda>func. func t) (match_func_unguarded match_metas metas_s))"
      by (rule applied_empty_signal) (simp add: match_metas_def match_pairs_empty)
    have sc: "concat (map (\<lambda>func. func t) (match_func match_scripts scripts_s)) =
              concat (map (\<lambda>func. func t) (match_func_unguarded match_scripts scripts_s))"
      by (rule applied_empty_signal) (simp add: match_scripts_def match_list_empty)
    have jv: "concat (map (\<lambda>func. func t) (match_func match_js_vars js_vars_s)) =
              concat (map (\<lambda>func. func t) (match_func_unguarded match_js_vars js_vars_s))"
      by (rule applied_empty_signal) (simp add: match_js_vars_def match_pairs_empty)
    show ?thesis
      unfolding concat_map_append by (simp only: u h hd ck mt sc jv)
  qed
  show ?thesis
    unfolding match_all_def match_all_unguarded_def Let_def
    by (rule arg_cong[where f = concat], rule map_cong[OF refl], rule per)
qed

theorem match_all_short_circuit_witness:
  "match_all [(''X'', any_url_technology)] (Some ''http://x'') (Some []) (Some []) (Some []) None (Some []) None =
   match_all_unguarded [(''X'', any_url_technology)] (Some ''http://x'') (Some []) (Some []) (Some []) None (Some []) None \<and>
   match_all [(''X'', any_url_technology)] (Some ''http://x'') (Some []) (Some []) (Some []) None (Some []) None =
   [\<lparr>pm_technology = any_url_technology, pm_pattern = dot_star, pm_version = []\<rparr>]"
proof -
  have a: "Some ''http://x'' = Some [] \<longrightarrow>
     (\<forall>t\<in>set (map snd [(''X'', any_url_technology)]). \<forall>p\<in>set (url t). p_regex p [] = None)"
    by simp
  have b: "Some [] = Some [] \<longrightarrow>
     (\<forall>t\<in>set (map snd [(''X'', any_url_technology)]). \<forall>p\<in>set (html t). p_regex p [] = None)"
    by (simp add: any_url_technology_def plain_technology_def)
  have r: "match_all [(''X'', any_url_technology)] (Some ''http://x'') (Some []) (Some []) (Some []) None (Some []) None =
   [\<lparr>pm_technology = any_url_technology, pm_pattern = dot_star, pm_version = []\<rparr>]"
    by (simp add: match_all_def match_func_def match_url_def match_str_def resolve_version_def
        any_url_technology_def plain_technology_def dot_star_def)
  show ?thesis
    using match_all_short_circuit[OF a b] r by simp
qed


text \<open>
  The claim as stated fails for the empty url: a url pattern that matches the empty string
  yields a hit when the field is evaluated, and none when \<^verbatim>\<open>if url:\<close> skips it.
\<close>

theorem match_all_short_circuit_changes_result:
  "match_all [(''X'', any_url_technology)] (Some []) None None None None None None = [] \<and>
   match_all_unguarded [(''X'', any_url_technology)] (Some []) None None None None None None =
     [\<lparr>pm_technology = any_url_technology, pm_pattern = dot_star, pm_version = []\<rparr>]"
  by (simp add: match_all_def match_all_unguarded_def match_func_def match_func_unguarded_def
      match_url_def match_str_def resolve_version_def
      any_url_technology_def plain_technology_def dot_star_def)


section \<open>Discovery does not read the js patterns\<close>

lemma match_patterns_without_js:
  "match_patterns ps (without_js t) v = map pm_without_js (match_patterns ps t v)"
  by (induction ps) (auto simp: pm_without_js_def split: option.splits)

lemma match_patterns_without_js_fun:
  "match_patterns ps (without_js t) = (\<lambda>v. map pm_without_js (match_patterns ps t v))"
  by (rule ext) (rule match_patterns_without_js)

lemma match_list_fields_without_js:
  "match_url (without_js t) u = map pm_without_js (match_url t u)"
  "match_html (without_js t) u = map pm_without_js (match_html t u)"
  "match_scripts (without_js t) ss = map pm_without_js (match_scripts t ss)"
  by (simp_all add: match_url_def match_html_def match_scripts_def match_str_def match_list_def
      match_patterns_without_js without_js_def[symmetric] map_concat comp_def)
     (simp_all add: without_js_def)

lemma match_pairs_without_js:
  "field \<noteq> Js \<Longrightarrow> match_pairs (without_js t) field pairs = map pm_without_js (match_pairs t field pairs)"
proof -
  assume "field \<noteq> Js"
  then have tp: "tech_pairs (without_js t) field = tech_pairs t field"
    by (cases field) (simp_all add: without_js_def)
  show ?thesis
    unfolding match_pairs_def tp
    by (simp add: map_concat comp_def split_def match_patterns_without_js_fun)
qed

lemma match_pairs_fields_without_js:
  "match_headers (without_js t) x = map pm_without_js (match_headers t x)"
  "match_cookies (without_js t) x = map pm_without_js (match_cookies t x)"
  "match_metas (without_js t) x = map pm_without_js (match_metas t x)"
  by (simp_all add: match_headers_def match_cookies_def match_metas_def match_pairs_without_js)

lemma match_func_without_js:
  assumes "\<And>t v. f (without_js t) v = map pm_without_js (f t v)"
  shows "concat (map (\<lambda>func. func (without_js t)) (match_func f s)) =
         map pm_without_js (concat (map (\<lambda>func. func t) (match_func f s)))"
  by (simp add: match_func_def assms split: option.splits)

lemma match_all_without_js:
  "match_all (rules_without_js T) u h ss cs ms hs None = map pm_without_js (match_all T u h ss cs ms hs None)"
proof -
  have none: "match_func match_js_vars None = []" by (simp add: match_func_def)
  have per: "concat (map (\<lambda>func. func (without_js t))
               (match_func match_url u @ match_func match_headers hs @
                match_func match_cookies cs @ match_func match_html h @
                match_func match_metas ms @ match_func match_scripts ss)) =
             map pm_without_js (concat (map (\<lambda>func. func t)
               (match_func match_url u @ match_func match_headers hs @
                match_func match_cookies cs @ match_func match_html h @
                match_func match_metas ms @ match_func match_scripts ss)))" for t
    by (simp only: map_append concat_append
        match_func_without_js[of match_url, OF match_list_fields_without_js(1)]
        match_func_without_js[of match_html, OF match_list_fields_without_js(2)]
        match_func_without_js[of match_scripts, OF match_list_fields_without_js(3)]
        match_func_without_js[of match_headers, OF match_pairs_fields_without_js(1)]
        match_func_without_js[of match_cookies, OF match_pairs_fields_without_js(2)]
        match_func_without_js[of match_metas, OF match_pairs_fields_without_js(3)])
  have snd: "map snd (rules_without_js T) = map without_js (map snd T)"
    by (simp add: rules_without_js_def split_def)
  show ?thesis
    unfolding match_all_def Let_def none append_Nil2 snd
    by (simp only: map_map comp_def per map_concat)
qed


lemma pm_without_js_simps:
  "name (pm_technology (pm_without_js pm)) = name (pm_technology pm)"
  "pm_pattern (pm_without_js pm) = pm_pattern pm"
  "pm_version (pm_without_js pm) = pm_version pm"
  "PatternMatch_key (pm_without_js pm) = PatternMatch_key pm"
  "PatternMatch_hash h (pm_without_js pm) = PatternMatch_hash h pm"
  "PatternMatch_eq (pm_without_js a) (pm_without_js b) = PatternMatch_eq a b"
  by (simp_all add: pm_without_js_def without_js_def PatternMatch_key_def PatternMatch_hash_def
      PatternMatch_eq_def)

lemma tm_without_js_simps:
  "name (tm_technology (tm_without_js tm)) = name (tm_technology tm)"
  "tm_confidence (tm_without_js tm) = tm_confidence tm"
  "tm_version (tm_without_js tm) = tm_version tm"
  "implies (tm_technology (tm_without_js tm)) = implies (tm_technology tm)"
  "excludes (tm_technology (tm_without_js tm)) = excludes (tm_technology tm)"
  "summary (tm_without_js tm) = summary tm"
  by (simp_all add: tm_without_js_def without_js_def summary_def)

lemma set_add_without_js:
  "set_add h (pm_without_js x) (map pm_without_js entries) = map pm_without_js (set_add h x entries)"
  by (simp add: set_add_def list_ex_iff pm_without_js_simps)

lemma fold_set_add_without_js:
  "fold (set_add h) (map pm_without_js xs) (map pm_without_js acc) =
   map pm_without_js (fold (set_add h) xs acc)"
  by (induction xs arbitrary: acc) (simp_all add: set_add_without_js)

lemma insort_key_map:
  "insort_key f (g x) (map g xs) = map g (insort_key (\<lambda>y. f (g y)) x xs)"
  by (induction xs) simp_all

lemma sort_key_map:
  "sort_key f (map g xs) = map g (sort_key (\<lambda>y. f (g y)) xs)"
  by (induction xs) (simp_all add: insort_key_map)

lemma list_of_set_without_js:
  "list_of_set h rank (map pm_without_js xs) = map pm_without_js (list_of_set h rank xs)"
  unfolding list_of_set_def
  using fold_set_add_without_js[of h xs "[]"]
  by (simp add: sort_key_map pm_without_js_simps)

lemma aggregate_without_js:
  "aggregate (pm_without_js pm) (map pm_without_js xs) cv = aggregate pm xs cv"
proof (induction xs arbitrary: cv)
  case Nil
  then show ?case by (cases cv) simp
next
  case (Cons a xs)
  then show ?case by (cases cv) (simp add: pm_without_js_simps)
qed

lemma extract_loop_without_js:
  "extract_loop (map pm_without_js all) (map pm_without_js xs) (map tm_without_js acc) =
   map tm_without_js (extract_loop all xs acc)"
proof (induction xs arbitrary: acc)
  case Nil
  then show ?case by simp
next
  case (Cons pm xs)
  have ex: "list_ex (\<lambda>item. TechMatch_eq_pm item (pm_without_js pm)) (map tm_without_js acc) =
            list_ex (\<lambda>item. TechMatch_eq_pm item pm) acc"
    by (simp add: list_ex_iff TechMatch_eq_pm_def tm_without_js_simps pm_without_js_simps)
  show ?case
  proof (cases "list_ex (\<lambda>item. TechMatch_eq_pm item pm) acc")
    case True
    then show ?thesis using Cons.IH[of acc] ex by simp
  next
    case False
    obtain c v where cv: "aggregate pm all (0, []) = (c, v)" by (cases "aggregate pm all (0, [])")
    have new: "map tm_without_js (acc @ [\<lparr>tm_technology = pm_technology pm, tm_confidence = c, tm_version = v\<rparr>]) =
          map tm_without_js acc @
          [\<lparr>tm_technology = pm_technology (pm_without_js pm), tm_confidence = c, tm_version = v\<rparr>]"
      by (simp add: tm_without_js_def pm_without_js_def)
    show ?thesis
      using False ex Cons.IH[of "acc @ [\<lparr>tm_technology = pm_technology pm, tm_confidence = c, tm_version = v\<rparr>]"]
      by (simp add: aggregate_without_js cv new del: map_append)
  qed
qed

lemma extract_techno_matches_without_js:
  "extract_techno_matches (map pm_without_js xs) = map tm_without_js (extract_techno_matches xs)"
  unfolding extract_techno_matches_def using extract_loop_without_js[of xs xs "[]"] by simp

lemma map_of_rules_without_js:
  "map_of (rules_without_js T) k = map_option without_js (map_of T k)"
  by (induction T) (auto simp: rules_without_js_def)

lemma implied_matches_without_js:
  "implied_matches (rules_without_js T) (tm_without_js tm) imps =
   map_sum id (map tm_without_js) (implied_matches T tm imps)"
  by (induction imps)
     (auto simp: map_of_rules_without_js tm_without_js_simps tm_without_js_def
           split: option.splits sum.splits)

lemma resolve_implies_without_js:
  "resolve_implies_inner f (rules_without_js T) (map tm_without_js impls) (tm_without_js tm) =
     map_sum id (map tm_without_js) (resolve_implies_inner f T impls tm)"
  "resolve_implies_each f (rules_without_js T) (map tm_without_js impls) (map tm_without_js xs) =
     map_sum id (map tm_without_js) (resolve_implies_each f T impls xs)"
proof (induction f T impls tm and f T impls xs
       rule: resolve_implies_inner_resolve_implies_each.induct)
  case (1 T impls tm)
  then show ?case by (simp add: resolve_implies_inner.simps)
next
  case (2 f T impls tm)
  have ex: "list_ex (\<lambda>item. TechMatch_eq item (tm_without_js tm)) (map tm_without_js impls) =
            list_ex (\<lambda>item. TechMatch_eq item tm) impls"
    by (simp add: list_ex_iff TechMatch_eq_def tm_without_js_simps)
  show ?case
  proof (cases "list_ex (\<lambda>item. TechMatch_eq item tm) impls")
    case True
    then show ?thesis using ex by (simp add: resolve_implies_inner.simps)
  next
    case False
    show ?thesis
    proof (cases "implied_matches T tm (implies (tm_technology tm))")
      case (Inl e)
      then show ?thesis
        using False ex
        by (simp add: resolve_implies_inner.simps implied_matches_without_js tm_without_js_simps)
    next
      case (Inr ims)
      have "resolve_implies_each f (rules_without_js T) (map tm_without_js (impls @ [tm])) (map tm_without_js ims) =
            map_sum id (map tm_without_js) (resolve_implies_each f T (impls @ [tm]) ims)"
        by (rule "2.IH"[OF False Inr])
      then show ?thesis
        using False ex Inr
        by (simp add: resolve_implies_inner.simps implied_matches_without_js tm_without_js_simps id_def)
    qed
  qed
next
  case (3 f T impls)
  then show ?case by simp
next
  case (4 f T impls tm rest)
  show ?case
  proof (cases "resolve_implies_inner f T impls tm")
    case (Inl e)
    then show ?thesis using "4.IH"(1) by simp
  next
    case (Inr mid)
    then show ?thesis using "4.IH"(1) "4.IH"(2)[OF Inr] by simp
  qed
qed

lemma excluded_by_without_js:
  "excluded_by (tm_without_js a) (tm_without_js b) = excluded_by a b"
  by (simp add: excluded_by_def tm_without_js_simps)

lemma resolve_excludes_without_js:
  "resolve_excludes (map tm_without_js xs) = map tm_without_js (resolve_excludes xs)"
proof (induction "length xs" arbitrary: xs rule: less_induct)
  case less
  show ?case
  proof (cases xs)
    case Nil
    then show ?thesis by (simp add: resolve_excludes_Nil)
  next
    case (Cons x ys)
    let ?f = "filter (\<lambda>tm. \<not> excluded_by x tm) ys"
    have len: "length ?f < length xs" using Cons by (simp add: less_Suc_eq_le)
    have "filter (\<lambda>tm. \<not> excluded_by (tm_without_js x) tm) (map tm_without_js ys) = map tm_without_js ?f"
      by (simp add: filter_map comp_def excluded_by_without_js)
    then show ?thesis
      unfolding Cons using less[OF len] by (simp add: resolve_excludes_Cons)
  qed
qed

lemma discover_technologies_without_js:
  "discover_technologies h rank frames (rules_without_js T) u hm ss cs ms hs =
   map_sum id (map tm_without_js) (discover_technologies h rank frames T u hm ss cs ms hs)"
  unfolding discover_technologies_def resolve_techno_matches_def Let_def
  using resolve_implies_without_js(2)[of frames T "[]"] 
  by (simp add: match_all_without_js list_of_set_without_js extract_techno_matches_without_js
      resolve_implies_def resolve_excludes_without_js split: sum.splits)


text \<open>
  Claim C10.  \<^const>\<open>discover_technologies\<close> has no js-variable input and calls
  \<^const>\<open>match_all\<close> with \<open>None\<close> for it.  For two rule sets that differ only in the \<^verbatim>\<open>js\<close>
  pattern collections of their technologies, and the same signals (and the same hashing of
  the process), the two results are the same error or the same list of matches up to the
  \<^verbatim>\<open>js\<close> collections held by the technologies in it: the same names, confidences and
  versions in the same order.
\<close>

theorem discover_technologies_ignores_js:
  assumes "rules_without_js technologies = rules_without_js technologies'"
  shows "map_sum id (map tm_without_js)
           (discover_technologies h rank frames technologies url_s html_s scripts_s cookies_s metas_s headers_s) =
         map_sum id (map tm_without_js)
           (discover_technologies h rank frames technologies' url_s html_s scripts_s cookies_s metas_s headers_s) \<and>
         map_sum id (map summary)
           (discover_technologies h rank frames technologies url_s html_s scripts_s cookies_s metas_s headers_s) =
         map_sum id (map summary)
           (discover_technologies h rank frames technologies' url_s html_s scripts_s cookies_s metas_s headers_s)"
proof -
  let ?d = "\<lambda>T. discover_technologies h rank frames T url_s html_s scripts_s cookies_s metas_s headers_s"
  have e: "map_sum id (map tm_without_js) (?d technologies) =
           map_sum id (map tm_without_js) (?d technologies')"
    using assms by (simp add: discover_technologies_without_js[symmetric])
  have s: "map_sum id (map summary) x = map_sum id (map summary) (map_sum id (map tm_without_js) x)" for x
    by (cases x) (simp_all add: comp_def tm_without_js_simps)
  have "map_sum id (map summary) (?d technologies) = map_sum id (map summary) (?d technologies')"
    using s[of "?d technologies"] s[of "?d technologies'"] e by simp
  with e show ?thesis by simp
qed

theorem discover_technologies_ignores_js_witness:
  "map_sum id (map summary)
     (discover_technologies (\<lambda>k. 0) (\<lambda>k. 0) 1000 [(''X'', any_url_technology)]
        (Some ''http://x'') (Some []) None None None None) = Inr [(''X'', 100, [])] \<and>
   map_sum id (map summary)
     (discover_technologies (\<lambda>k. 0) (\<lambda>k. 0) 1000 [(''X'', js_technology)]
        (Some ''http://x'') (Some []) None None None None) = Inr [(''X'', 100, [])]"
proof -
  have hyp: "rules_without_js [(''X'', any_url_technology)] = rules_without_js [(''X'', js_technology)]"
    by (simp add: rules_without_js_def without_js_def js_technology_def)
  have m: "match_all [(''X'', any_url_technology)] (Some ''http://x'') (Some []) None None None None None =
     [\<lparr>pm_technology = any_url_technology, pm_pattern = dot_star, pm_version = []\<rparr>]"
    by (simp add: match_all_def match_func_def match_url_def match_str_def resolve_version_def
        any_url_technology_def plain_technology_def dot_star_def)
  have r: "map_sum id (map summary)
     (discover_technologies (\<lambda>k. 0) (\<lambda>k. 0) 1000 [(''X'', any_url_technology)]
        (Some ''http://x'') (Some []) None None None None) = Inr [(''X'', 100, [])]"
    unfolding discover_technologies_def m
    by (simp add: resolve_techno_matches_def list_of_set_def set_add_def extract_techno_matches_def
        TechMatch_eq_pm_def PatternMatch_eq_def resolve_implies_def resolve_implies_inner_unfold
        TechMatch_eq_def resolve_excludes_def summary_def
        any_url_technology_def plain_technology_def dot_star_def)
  show ?thesis
    using discover_technologies_ignores_js[OF hyp, of "\<lambda>k. 0" "\<lambda>k. 0" 1000 "Some ''http://x''" "Some []" None None None None] r
    by simp
qed


section \<open>Case of the keys in keyed matching\<close>

lemma fold_update_keys:
  "fst ` set (fold (\<lambda>(key, v) parsed. AList.update (g key) (f key v) parsed) xs acc) =
   fst ` set acc \<union> g ` fst ` set xs"
  by (induction xs arbitrary: acc) (auto simp: AList.dom_update split_def)

lemma fold_update_distinct:
  "distinct (map fst acc) \<Longrightarrow>
   distinct (map fst (fold (\<lambda>(key, v) parsed. AList.update (g key) (f key v) parsed) xs acc))"
  by (induction xs arbitrary: acc) (auto simp: AList.distinct_update split_def)

lemma map_of_fold_update:
  "map_of (fold (\<lambda>(k, v) d. AList.update (g k) (f k v) d) xs acc) key =
     (case map_of (rev (map (\<lambda>(k, v). (g k, f k v)) xs)) key of
        Some y \<Rightarrow> Some y
      | None \<Rightarrow> map_of acc key)"
proof (induction xs arbitrary: acc)
  case Nil
  then show ?case by (simp split: option.splits)
next
  case (Cons p xs)
  obtain k v where p: "p = (k, v)" by (cases p)
  show ?case
    unfolding p by (simp add: Cons.IH AList.update_conv' map_add_def split: option.splits)
qed

lemma update_fresh:
  "k \<notin> fst ` set al \<Longrightarrow> AList.update k v al = al @ [(k, v)]"
  by (induction al) auto

lemma fold_update_fresh:
  "distinct (map g (map fst xs)) \<Longrightarrow> g ` fst ` set xs \<inter> fst ` set acc = {} \<Longrightarrow>
   fold (\<lambda>(k, v) d. AList.update (g k) (f k v) d) xs acc = acc @ map (\<lambda>(k, v). (g k, f k v)) xs"
proof (induction xs arbitrary: acc)
  case Nil
  then show ?case by simp
next
  case (Cons p xs)
  obtain k v where p: "p = (k, v)" by (cases p)
  have fresh: "g k \<notin> fst ` set acc" using Cons.prems(2) p by auto
  have "g ` fst ` set xs \<inter> fst ` set (acc @ [(g k, f k v)]) = {}"
    using Cons.prems p by auto
  moreover have "distinct (map g (map fst xs))" using Cons.prems(1) by simp
  ultimately show ?case
    unfolding p using Cons.IH[of "acc @ [(g k, f k v)]"] fresh by (simp add: update_fresh)
qed

lemma set_effective_entries: "set (effective_entries g xs) \<subseteq> set xs"
  by (induction g xs rule: effective_entries.induct) auto

lemma effective_entries_distinct:
  "distinct (map g (map fst xs)) \<Longrightarrow> effective_entries g xs = xs"
  by (induction g xs rule: effective_entries.induct) auto

lemma map_of_rev_None:
  "map_of (rev (map (\<lambda>(k, v). (g k, f k v)) xs)) key = None \<longleftrightarrow> key \<notin> g ` fst ` set xs"
  by (force simp: map_of_eq_None_iff split_def image_iff)

lemma map_of_rev_effective:
  "map_of (rev (map (\<lambda>(k, v). (g k, f k v)) xs)) key = Some y \<longleftrightarrow>
     (\<exists>(k, v)\<in>set (effective_entries g xs). g k = key \<and> y = f k v)"
proof (induction g xs rule: effective_entries.induct)
  case (1 g)
  then show ?case by simp
next
  case (2 g k v rest)
  let ?A = "rev (map (\<lambda>(k, v). (g k, f k v)) rest)"
  have look: "map_of (rev (map (\<lambda>(k, v). (g k, f k v)) ((k, v) # rest))) key =
              (case map_of ?A key of Some y \<Rightarrow> Some y | None \<Rightarrow> if g k = key then Some (f k v) else None)"
    by (simp add: map_add_def split: option.splits)
  show ?case
  proof (cases "g k \<in> g ` fst ` set rest")
    case True
    have "map_of ?A key = Some y \<longleftrightarrow> (\<exists>(k, v)\<in>set (effective_entries g rest). g k = key \<and> y = f k v)"
      using "2.IH"(1)[OF True] .
    moreover have "g k = key \<Longrightarrow> map_of ?A key \<noteq> None"
      using True map_of_rev_None[of g f rest key] by simp
    ultimately show ?thesis using True unfolding look by (auto split: option.splits)
  next
    case False
    have ih: "map_of ?A key = Some y \<longleftrightarrow> (\<exists>(k, v)\<in>set (effective_entries g rest). g k = key \<and> y = f k v)"
      using "2.IH"(2)[OF False] .
    show ?thesis
    proof (cases "g k = key")
      case True
      then have none: "map_of ?A key = None" using False map_of_rev_None[of g f rest key] by simp
      have "\<not> (\<exists>(k', v')\<in>set (effective_entries g rest). g k' = key \<and> y = f k' v')"
        using ih none by simp
      then show ?thesis using True False none unfolding look by auto
    next
      case neq: False
      then show ?thesis using False ih unfolding look by (auto split: option.splits)
    qed
  qed
qed

lemma transform_patterns_dict:
  assumes "transform_patterns parse (JDict raw) False = TDict d"
  shows "d = fold (\<lambda>(key, v) parsed. AList.update (lower key)
                    (map (\<lambda>ptrn. parse ptrn key) (to_list v)) parsed) raw []"
    and "map_of d ''main'' = None"
  using assms by (auto simp: transform_patterns_def Let_def split: if_splits option.splits)

lemma transform_patterns_loaded:
  assumes "transform_patterns parse (JDict raw) False = TDict d"
  shows "distinct (map fst d)"
    and "fst ` set d = lower ` fst ` set raw"
    and "''main'' \<notin> lower ` fst ` set raw"
    and "map_of d key =
           map_of (rev (map (\<lambda>(k, v). (lower k, map (\<lambda>ptrn. parse ptrn k) (to_list v))) raw)) key"
proof -
  let ?f = "\<lambda>key v. map (\<lambda>ptrn. parse ptrn key) (to_list v)"
  note d = transform_patterns_dict[OF assms]
  show "distinct (map fst d)"
    unfolding d(1) using fold_update_distinct[of "[]" lower ?f raw] by simp
  show keys: "fst ` set d = lower ` fst ` set raw"
    unfolding d(1) using fold_update_keys[of lower ?f raw "[]"] by simp
  show "''main'' \<notin> lower ` fst ` set raw"
    using d(2) keys by (metis map_of_eq_None_iff)
  show "map_of d key = map_of (rev (map (\<lambda>(k, v). (lower k, ?f k v)) raw)) key"
    unfolding d(1) using map_of_fold_update[of lower ?f raw "[]" key] by (simp split: option.splits)
qed

lemma transform_patterns_main:
  assumes "''main'' \<in> lower ` fst ` set raw"
  shows "\<exists>ps. map_of (rev (map (\<lambda>(k, v). (lower k, map (\<lambda>ptrn. parse ptrn k) (to_list v))) raw))
                 ''main'' = Some ps \<and>
              transform_patterns parse (JDict raw) False = TList ps"
proof -
  let ?f = "\<lambda>key v. map (\<lambda>ptrn. parse ptrn key) (to_list v)"
  from assms have ne: "raw \<noteq> []" by auto
  from assms obtain ps where ps: "map_of (rev (map (\<lambda>(k, v). (lower k, ?f k v)) raw)) ''main'' = Some ps"
    using map_of_rev_None[of lower ?f raw "''main''"] by auto
  then have "map_of (fold (\<lambda>(key, v) parsed. AList.update (lower key) (?f key v) parsed) raw [])
               ''main'' = Some ps"
    using map_of_fold_update[of lower ?f raw "[]" "''main''"] by simp
  then have "transform_patterns parse (JDict raw) False = TList ps"
    using ne by (simp add: transform_patterns_def Let_def)
  with ps show ?thesis by blast
qed

lemma transform_patterns_distinct_keys:
  assumes "distinct (map lower (map fst raw))" and "''main'' \<notin> lower ` fst ` set raw" and "raw \<noteq> []"
  shows "transform_patterns parse (JDict raw) False =
         TDict (map (\<lambda>(k, v). (lower k, map (\<lambda>ptrn. parse ptrn k) (to_list v))) raw)"
proof -
  let ?f = "\<lambda>key v. map (\<lambda>ptrn. parse ptrn key) (to_list v)"
  have f: "fold (\<lambda>(key, v) parsed. AList.update (lower key) (?f key v) parsed) raw [] =
           map (\<lambda>(k, v). (lower k, ?f k v)) raw"
    using fold_update_fresh[of lower raw "[]" ?f] assms(1) by simp
  have "map_of (map (\<lambda>(k, v). (lower k, ?f k v)) raw) ''main'' = None"
    using assms(2) by (force simp: map_of_eq_None_iff split_def image_iff)
  then show ?thesis using assms(3) f by (simp add: transform_patterns_def Let_def)
qed

lemma cookie_lookup:
  "map_of (pairs_local Cookies pairs) key = map_of (rev (map (\<lambda>(k, vs). (lower k, vs)) pairs)) key"
  unfolding pairs_local_def
  using map_of_fold_update[of lower "\<lambda>k vs. vs" pairs "[]" key] by (simp split: option.splits)

lemma set_match_patterns:
  "set (match_patterns ps t v) = {pattern_hit t p v |p. p \<in> set ps \<and> p_regex p v \<noteq> None}"
  by (induction ps) (auto simp: pattern_hit_def split: option.splits)

lemma in_match_pairs:
  "pm \<in> set (match_pairs t field pairs) \<longleftrightarrow>
     (\<exists>key ps p vs v. (key, ps) \<in> set (tech_pairs t field) \<and> p \<in> set ps \<and>
        map_of (pairs_local field pairs) key = Some vs \<and> v \<in> set vs \<and>
        p_regex p v \<noteq> None \<and> pm = pattern_hit t p v)"
proof
  assume "pm \<in> set (match_pairs t field pairs)"
  then obtain key ps v where kp: "(key, ps) \<in> set (tech_pairs t field)"
    and v: "v \<in> set (case map_of (pairs_local field pairs) key of None \<Rightarrow> [] | Some vals \<Rightarrow> vals)"
    and pm: "pm \<in> set (match_patterns ps t v)"
    by (auto simp: match_pairs_def)
  from v obtain vs where vs: "map_of (pairs_local field pairs) key = Some vs" "v \<in> set vs"
    by (cases "map_of (pairs_local field pairs) key") auto
  from pm obtain p where "p \<in> set ps" "p_regex p v \<noteq> None" "pm = pattern_hit t p v"
    unfolding set_match_patterns by blast
  with kp vs show "\<exists>key ps p vs v. (key, ps) \<in> set (tech_pairs t field) \<and> p \<in> set ps \<and>
        map_of (pairs_local field pairs) key = Some vs \<and> v \<in> set vs \<and>
        p_regex p v \<noteq> None \<and> pm = pattern_hit t p v" by blast
next
  assume "\<exists>key ps p vs v. (key, ps) \<in> set (tech_pairs t field) \<and> p \<in> set ps \<and>
        map_of (pairs_local field pairs) key = Some vs \<and> v \<in> set vs \<and>
        p_regex p v \<noteq> None \<and> pm = pattern_hit t p v"
  then obtain key ps p vs v where kp: "(key, ps) \<in> set (tech_pairs t field)" and p: "p \<in> set ps"
    and vs: "map_of (pairs_local field pairs) key = Some vs" "v \<in> set vs"
    and m: "p_regex p v \<noteq> None" and pm: "pm = pattern_hit t p v" by blast
  have "pm \<in> set (match_patterns ps t v)" unfolding set_match_patterns using p m pm by blast
  then have "pm \<in> set (concat (map (\<lambda>val. match_patterns ps t val)
      (case map_of (pairs_local field pairs) key of None \<Rightarrow> [] | Some vals \<Rightarrow> vals)))"
    using vs by auto
  then show "pm \<in> set (match_pairs t field pairs)"
    unfolding match_pairs_def using kp by force
qed

lemma loaded_entry:
  assumes "transform_patterns parse (JDict raw) False = TDict d"
  shows "(key, ps) \<in> set d \<longleftrightarrow>
         (\<exists>(k_r, val)\<in>set (effective_entries lower raw).
            lower k_r = key \<and> ps = map (\<lambda>ptrn. parse ptrn k_r) (to_list val))"
proof -
  have "(key, ps) \<in> set d \<longleftrightarrow> map_of d key = Some ps"
    using transform_patterns_loaded(1)[OF assms] by simp
  also have "\<dots> \<longleftrightarrow> map_of (rev (map (\<lambda>(k, v). (lower k, map (\<lambda>ptrn. parse ptrn k) (to_list v))) raw)) key = Some ps"
    using transform_patterns_loaded(4)[OF assms, of key] by simp
  also have "\<dots> \<longleftrightarrow> (\<exists>(k_r, val)\<in>set (effective_entries lower raw).
            lower k_r = key \<and> ps = map (\<lambda>ptrn. parse ptrn k_r) (to_list val))"
    by (rule map_of_rev_effective)
  finally show ?thesis .
qed

lemma supplied_cookie:
  "map_of (pairs_local Cookies pairs) key = Some vs \<longleftrightarrow>
     (\<exists>(k_s, vs')\<in>set (effective_entries lower pairs). lower k_s = key \<and> vs = vs')"
  unfolding cookie_lookup using map_of_rev_effective[of lower "\<lambda>k vs. vs" pairs key vs] by simp

lemma loaded_matches:
  assumes "transform_patterns parse (JDict raw) False = TDict (tech_pairs t field)"
  shows "pm \<in> set (match_pairs t field pairs) \<longleftrightarrow>
     (\<exists>k_r val ptrn vs v.
        (k_r, val) \<in> set (effective_entries lower raw) \<and> ptrn \<in> set (to_list val) \<and>
        map_of (pairs_local field pairs) (lower k_r) = Some vs \<and> v \<in> set vs \<and>
        p_regex (parse ptrn k_r) v \<noteq> None \<and> pm = pattern_hit t (parse ptrn k_r) v)"
proof
  assume "pm \<in> set (match_pairs t field pairs)"
  then obtain key ps p vs v where kp: "(key, ps) \<in> set (tech_pairs t field)" and p: "p \<in> set ps"
    and vs: "map_of (pairs_local field pairs) key = Some vs" "v \<in> set vs"
    and m: "p_regex p v \<noteq> None" and pm: "pm = pattern_hit t p v"
    unfolding in_match_pairs by blast
  from kp obtain k_r val where e: "(k_r, val) \<in> set (effective_entries lower raw)"
    and key: "lower k_r = key" and ps: "ps = map (\<lambda>ptrn. parse ptrn k_r) (to_list val)"
    unfolding loaded_entry[OF assms] by blast
  from p ps obtain ptrn where ptrn: "ptrn \<in> set (to_list val)" "p = parse ptrn k_r" by auto
  show "\<exists>k_r val ptrn vs v.
        (k_r, val) \<in> set (effective_entries lower raw) \<and> ptrn \<in> set (to_list val) \<and>
        map_of (pairs_local field pairs) (lower k_r) = Some vs \<and> v \<in> set vs \<and>
        p_regex (parse ptrn k_r) v \<noteq> None \<and> pm = pattern_hit t (parse ptrn k_r) v"
    using e ptrn vs m pm key by blast
next
  assume "\<exists>k_r val ptrn vs v.
        (k_r, val) \<in> set (effective_entries lower raw) \<and> ptrn \<in> set (to_list val) \<and>
        map_of (pairs_local field pairs) (lower k_r) = Some vs \<and> v \<in> set vs \<and>
        p_regex (parse ptrn k_r) v \<noteq> None \<and> pm = pattern_hit t (parse ptrn k_r) v"
  then obtain k_r val ptrn vs v where e: "(k_r, val) \<in> set (effective_entries lower raw)"
    and ptrn: "ptrn \<in> set (to_list val)"
    and vs: "map_of (pairs_local field pairs) (lower k_r) = Some vs" "v \<in> set vs"
    and m: "p_regex (parse ptrn k_r) v \<noteq> None" and pm: "pm = pattern_hit t (parse ptrn k_r) v"
    by blast
  have "(lower k_r, map (\<lambda>ptrn. parse ptrn k_r) (to_list val)) \<in> set (tech_pairs t field)"
    unfolding loaded_entry[OF assms] using e by blast
  moreover have "parse ptrn k_r \<in> set (map (\<lambda>ptrn. parse ptrn k_r) (to_list val))"
    using ptrn by simp
  ultimately show "pm \<in> set (match_pairs t field pairs)"
    unfolding in_match_pairs using vs m pm by blast
qed

lemma supplied_cookie_key:
  "map_of (pairs_local Cookies pairs) key = Some vs \<longleftrightarrow>
     (\<exists>k_s. (k_s, vs) \<in> set (effective_entries lower pairs) \<and> lower k_s = key)"
  unfolding supplied_cookie by auto

lemma supplied_plain_key:
  "field \<noteq> Cookies \<Longrightarrow> distinct (map fst pairs) \<Longrightarrow>
   map_of (pairs_local field pairs) key = Some vs \<longleftrightarrow> (\<exists>k_s. (k_s, vs) \<in> set pairs \<and> k_s = key)"
  by (simp add: pairs_local_def)

lemma loaded_cookie_matches:
  assumes "transform_patterns parse (JDict raw) False = TDict (cookies t)"
  shows "pm \<in> set (match_cookies t pairs) \<longleftrightarrow>
         (\<exists>k_r val ptrn k_s vs v.
            (k_r, val) \<in> set (effective_entries lower raw) \<and> ptrn \<in> set (to_list val) \<and>
            (k_s, vs) \<in> set (effective_entries lower pairs) \<and> lower k_s = lower k_r \<and>
            v \<in> set vs \<and> p_regex (parse ptrn k_r) v \<noteq> None \<and>
            pm = pattern_hit t (parse ptrn k_r) v)"
    (is "?L \<longleftrightarrow> ?R")
proof -
  have l: "transform_patterns parse (JDict raw) False = TDict (tech_pairs t Cookies)"
    using assms by simp
  show ?thesis
  proof
    assume ?L
    then obtain k_r val ptrn vs v where
      a: "(k_r, val) \<in> set (effective_entries lower raw)" "ptrn \<in> set (to_list val)"
         "map_of (pairs_local Cookies pairs) (lower k_r) = Some vs" "v \<in> set vs"
         "p_regex (parse ptrn k_r) v \<noteq> None" "pm = pattern_hit t (parse ptrn k_r) v"
      unfolding match_cookies_def loaded_matches[OF l] by blast
    from a(3) obtain k_s where "(k_s, vs) \<in> set (effective_entries lower pairs)" "lower k_s = lower k_r"
      unfolding supplied_cookie_key by blast
    with a show ?R by blast
  next
    assume ?R
    then obtain k_r val ptrn k_s vs v where
      a: "(k_r, val) \<in> set (effective_entries lower raw)" "ptrn \<in> set (to_list val)"
         "(k_s, vs) \<in> set (effective_entries lower pairs)" "lower k_s = lower k_r" "v \<in> set vs"
         "p_regex (parse ptrn k_r) v \<noteq> None" "pm = pattern_hit t (parse ptrn k_r) v"
      by blast
    have "map_of (pairs_local Cookies pairs) (lower k_r) = Some vs"
      unfolding supplied_cookie_key using a(3,4) by blast
    with a show ?L unfolding match_cookies_def loaded_matches[OF l] by blast
  qed
qed

lemma loaded_plain_matches:
  assumes "transform_patterns parse (JDict raw) False = TDict (tech_pairs t field)"
    and "field \<noteq> Cookies" and "distinct (map fst pairs)"
  shows "pm \<in> set (match_pairs t field pairs) \<longleftrightarrow>
         (\<exists>k_r val ptrn k_s vs v.
            (k_r, val) \<in> set (effective_entries lower raw) \<and> ptrn \<in> set (to_list val) \<and>
            (k_s, vs) \<in> set pairs \<and> k_s = lower k_r \<and>
            v \<in> set vs \<and> p_regex (parse ptrn k_r) v \<noteq> None \<and>
            pm = pattern_hit t (parse ptrn k_r) v)"
    (is "?L \<longleftrightarrow> ?R")
proof
  assume ?L
  then obtain k_r val ptrn vs v where
    a: "(k_r, val) \<in> set (effective_entries lower raw)" "ptrn \<in> set (to_list val)"
       "map_of (pairs_local field pairs) (lower k_r) = Some vs" "v \<in> set vs"
       "p_regex (parse ptrn k_r) v \<noteq> None" "pm = pattern_hit t (parse ptrn k_r) v"
    unfolding loaded_matches[OF assms(1)] by blast
  from a(3) have "(lower k_r, vs) \<in> set pairs"
    unfolding supplied_plain_key[OF assms(2,3)] by blast
  with a show ?R by blast
next
  assume ?R
  then obtain k_r val ptrn vs v where
    a: "(k_r, val) \<in> set (effective_entries lower raw)" "ptrn \<in> set (to_list val)"
       "(lower k_r, vs) \<in> set pairs" "v \<in> set vs"
       "p_regex (parse ptrn k_r) v \<noteq> None" "pm = pattern_hit t (parse ptrn k_r) v"
    by blast
  have "map_of (pairs_local field pairs) (lower k_r) = Some vs"
    unfolding supplied_plain_key[OF assms(2,3)] using a(3) by blast
  with a show ?L unfolding loaded_matches[OF assms(1)] by blast
qed


text \<open>
  Claim C9, as amended.  The loader stores the keys of a cookie, header or meta rule in
  lower case; of the rule keys with one lower-case form the last is the one in effect (the
  entries that \<^const>\<open>effective_entries\<close> keeps), and a rule with a key whose lower-case form
  is \<^verbatim>\<open>main\<close> is not stored as a dictionary at all.  For cookies the supplied keys are
  lower-cased as well, a later one replacing an earlier one of the same lower-case form.
  For headers and metas the supplied keys are used as they are.  So over a loaded rule,
  whatever the number of its keys and of the supplied keys, the hits are exactly those of
  the patterns of a rule key in effect on the values of a supplied key such that, for
  cookies, the lower-case forms of the two keys agree and, for headers and metas, the
  supplied key is the lower-case form of the rule key.
\<close>

theorem keyed_matching_key_case:
  "(\<forall>d. transform_patterns parse (JDict raw) False = TDict d \<longrightarrow>
      distinct (map fst d) \<and> fst ` set d = lower ` fst ` set raw \<and>
      ''main'' \<notin> lower ` fst ` set raw \<and>
      (\<forall>key ps. (key, ps) \<in> set d \<longleftrightarrow>
         (\<exists>(k_r, val)\<in>set (effective_entries lower raw).
            lower k_r = key \<and> ps = map (\<lambda>ptrn. parse ptrn k_r) (to_list val)))) \<and>
   (''main'' \<in> lower ` fst ` set raw \<longrightarrow>
      (\<exists>ps. transform_patterns parse (JDict raw) False = TList ps)) \<and>
   (distinct (map lower (map fst raw)) \<and> ''main'' \<notin> lower ` fst ` set raw \<and> raw \<noteq> [] \<longrightarrow>
      effective_entries lower raw = raw \<and>
      transform_patterns parse (JDict raw) False =
        TDict (map (\<lambda>(k, v). (lower k, map (\<lambda>ptrn. parse ptrn k) (to_list v))) raw)) \<and>
   (\<forall>pairs key vs. map_of (pairs_local Cookies pairs) key = Some vs \<longleftrightarrow>
      (\<exists>(k_s, vs')\<in>set (effective_entries lower pairs). lower k_s = key \<and> vs = vs')) \<and>
   (\<forall>pairs. pairs_local Headers pairs = pairs \<and> pairs_local Meta pairs = pairs) \<and>
   (\<forall>t pairs pm. transform_patterns parse (JDict raw) False = TDict (cookies t) \<longrightarrow>
      (pm \<in> set (match_cookies t pairs) \<longleftrightarrow>
         (\<exists>k_r val ptrn k_s vs v.
            (k_r, val) \<in> set (effective_entries lower raw) \<and> ptrn \<in> set (to_list val) \<and>
            (k_s, vs) \<in> set (effective_entries lower pairs) \<and> lower k_s = lower k_r \<and>
            v \<in> set vs \<and> p_regex (parse ptrn k_r) v \<noteq> None \<and>
            pm = pattern_hit t (parse ptrn k_r) v))) \<and>
   (\<forall>t pairs pm.
      transform_patterns parse (JDict raw) False = TDict (headers t) \<and> distinct (map fst pairs) \<longrightarrow>
      (pm \<in> set (match_headers t pairs) \<longleftrightarrow>
         (\<exists>k_r val ptrn k_s vs v.
            (k_r, val) \<in> set (effective_entries lower raw) \<and> ptrn \<in> set (to_list val) \<and>
            (k_s, vs) \<in> set pairs \<and> k_s = lower k_r \<and>
            v \<in> set vs \<and> p_regex (parse ptrn k_r) v \<noteq> None \<and>
            pm = pattern_hit t (parse ptrn k_r) v))) \<and>
   (\<forall>t pairs pm.
      transform_patterns parse (JDict raw) False = TDict (meta t) \<and> distinct (map fst pairs) \<longrightarrow>
      (pm \<in> set (match_metas t pairs) \<longleftrightarrow>
         (\<exists>k_r val ptrn k_s vs v.
            (k_r, val) \<in> set (effective_entries lower raw) \<and> ptrn \<in> set (to_list val) \<and>
            (k_s, vs) \<in> set pairs \<and> k_s = lower k_r \<and>
            v \<in> set vs \<and> p_regex (parse ptrn k_r) v \<noteq> None \<and>
            pm = pattern_hit t (parse ptrn k_r) v)))"
proof (intro conjI allI impI)
  fix d
  assume a: "transform_patterns parse (JDict raw) False = TDict d"
  show "distinct (map fst d)" by (rule transform_patterns_loaded(1)[OF a])
  show "fst ` set d = lower ` fst ` set raw" by (rule transform_patterns_loaded(2)[OF a])
  show "''main'' \<notin> lower ` fst ` set raw" by (rule transform_patterns_loaded(3)[OF a])
  show "(key, ps) \<in> set d \<longleftrightarrow>
         (\<exists>(k_r, val)\<in>set (effective_entries lower raw).
            lower k_r = key \<and> ps = map (\<lambda>ptrn. parse ptrn k_r) (to_list val))" for key ps
    by (rule loaded_entry[OF a])
next
  assume "''main'' \<in> lower ` fst ` set raw"
  then show "\<exists>ps. transform_patterns parse (JDict raw) False = TList ps"
    using transform_patterns_main[of raw parse] by blast
next
  assume a: "distinct (map lower (map fst raw)) \<and> ''main'' \<notin> lower ` fst ` set raw \<and> raw \<noteq> []"
  then show "effective_entries lower raw = raw" by (simp add: effective_entries_distinct)
  show "transform_patterns parse (JDict raw) False =
        TDict (map (\<lambda>(k, v). (lower k, map (\<lambda>ptrn. parse ptrn k) (to_list v))) raw)"
    using a by (intro transform_patterns_distinct_keys) simp_all
next
  fix pairs :: "string list dict" and key vs
  show "map_of (pairs_local Cookies pairs) key = Some vs \<longleftrightarrow>
      (\<exists>(k_s, vs')\<in>set (effective_entries lower pairs). lower k_s = key \<and> vs = vs')"
    by (rule supplied_cookie)
next
  fix pairs :: "string list dict"
  show "pairs_local Headers pairs = pairs" by (simp add: pairs_local_def)
  show "pairs_local Meta pairs = pairs" by (simp add: pairs_local_def)
next
  fix t :: technology and pairs :: "string list dict" and pm
  assume "transform_patterns parse (JDict raw) False = TDict (cookies t)"
  then show "pm \<in> set (match_cookies t pairs) \<longleftrightarrow>
         (\<exists>k_r val ptrn k_s vs v.
            (k_r, val) \<in> set (effective_entries lower raw) \<and> ptrn \<in> set (to_list val) \<and>
            (k_s, vs) \<in> set (effective_entries lower pairs) \<and> lower k_s = lower k_r \<and>
            v \<in> set vs \<and> p_regex (parse ptrn k_r) v \<noteq> None \<and>
            pm = pattern_hit t (parse ptrn k_r) v)"
    by (rule loaded_cookie_matches)
next
  fix t :: technology and pairs :: "string list dict" and pm
  assume a: "transform_patterns parse (JDict raw) False = TDict (headers t) \<and> distinct (map fst pairs)"
  then have l: "transform_patterns parse (JDict raw) False = TDict (tech_pairs t Headers)"
    and d: "distinct (map fst pairs)" by simp_all
  show "pm \<in> set (match_headers t pairs) \<longleftrightarrow>
         (\<exists>k_r val ptrn k_s vs v.
            (k_r, val) \<in> set (effective_entries lower raw) \<and> ptrn \<in> set (to_list val) \<and>
            (k_s, vs) \<in> set pairs \<and> k_s = lower k_r \<and>
            v \<in> set vs \<and> p_regex (parse ptrn k_r) v \<noteq> None \<and>
            pm = pattern_hit t (parse ptrn k_r) v)"
    unfolding match_headers_def by (rule loaded_plain_matches[OF l _ d]) simp
next
  fix t :: technology and pairs :: "string list dict" and pm
  assume a: "transform_patterns parse (JDict raw) False = TDict (meta t) \<and> distinct (map fst pairs)"
  then have l: "transform_patterns parse (JDict raw) False = TDict (tech_pairs t Meta)"
    and d: "distinct (map fst pairs)" by simp_all
  show "pm \<in> set (match_metas t pairs) \<longleftrightarrow>
         (\<exists>k_r val ptrn k_s vs v.
            (k_r, val) \<in> set (effective_entries lower raw) \<and> ptrn \<in> set (to_list val) \<and>
            (k_s, vs) \<in> set pairs \<and> k_s = lower k_r \<and>
            v \<in> set vs \<and> p_regex (parse ptrn k_r) v \<noteq> None \<and>
            pm = pattern_hit t (parse ptrn k_r) v)"
    unfolding match_metas_def by (rule loaded_plain_matches[OF l _ d]) simp
qed

lemma lower_Server: "lower ''Server'' = ''server''"
  by (simp add: lower_def lower_char_def char_of_def bit_0)

lemma lower_SERVER: "lower ''SERVER'' = ''server''"
  by (simp add: lower_def lower_char_def char_of_def bit_0)

lemma lower_X_Powered_By: "lower ''X-Powered-By'' = ''x-powered-by''"
  by (simp add: lower_def lower_char_def char_of_def bit_0)

lemma lower_Main: "lower ''Main'' = ''main''"
  by (simp add: lower_def lower_char_def char_of_def bit_0)

lemma lower_SessionID: "lower ''SessionID'' = ''sessionid''"
  by (simp add: lower_def lower_char_def char_of_def bit_0)

lemma lower_SESSIONID: "lower ''SESSIONID'' = ''sessionid''"
  by (simp add: lower_def lower_char_def char_of_def bit_0)

lemma lower_Generator: "lower ''Generator'' = ''generator''"
  by (simp add: lower_def lower_char_def char_of_def bit_0)

lemmas lower_eval = lower_Server lower_SERVER lower_X_Powered_By lower_Main lower_SessionID
  lower_SESSIONID lower_Generator

theorem keyed_matching_key_case_witness:
  "transform_patterns any_pattern
     (JDict [(''Server'', JStr ''nginx''), (''X-Powered-By'', JStr ''php'')]) False =
     TDict (headers two_header_technology) \<and>
   pattern_hit two_header_technology (any_pattern ''php'' ''X-Powered-By'') ''b''
     \<in> set (match_headers two_header_technology [(''Server'', [''a'']), (''x-powered-by'', [''b''])]) \<and>
   pattern_hit two_header_technology (any_pattern ''nginx'' ''Server'') ''a''
     \<notin> set (match_headers two_header_technology [(''Server'', [''a'']), (''x-powered-by'', [''b''])]) \<and>
   ''main'' \<notin> lower ` fst ` set [(''Server'', JStr ''nginx''), (''X-Powered-By'', JStr ''php'')] \<and>
   transform_patterns any_pattern (JDict [(''Main'', JStr ''a''), (''Server'', JStr ''b'')]) False =
     TList [any_pattern ''a'' ''Main''] \<and>
   (\<exists>ps. transform_patterns any_pattern (JDict [(''Main'', JStr ''a''), (''Server'', JStr ''b'')]) False =
      TList ps) \<and>
   transform_patterns any_pattern (JDict [(''Server'', JStr ''a''), (''SERVER'', JStr ''b'')]) False =
     TDict [(''server'', [any_pattern ''b'' ''SERVER''])] \<and>
   effective_entries lower [(''Server'', JStr ''a''), (''SERVER'', JStr ''b'')] =
     [(''SERVER'', JStr ''b'')] \<and>
   map_of (pairs_local Cookies [(''SESSIONID'', [''1''])]) ''sessionid'' = Some [''1''] \<and>
   pattern_hit ((plain_technology ''X'' [] [])
       \<lparr>cookies := [(''sessionid'', [any_pattern ''.*'' ''SessionID''])]\<rparr>)
     (any_pattern ''.*'' ''SessionID'') ''1''
     \<in> set (match_cookies ((plain_technology ''X'' [] [])
                \<lparr>cookies := [(''sessionid'', [any_pattern ''.*'' ''SessionID''])]\<rparr>)
              [(''SESSIONID'', [''1''])]) \<and>
   pattern_hit ((plain_technology ''X'' [] [])
       \<lparr>meta := [(''generator'', [any_pattern ''WordPress'' ''Generator''])]\<rparr>)
     (any_pattern ''WordPress'' ''Generator'') ''WordPress 5''
     \<in> set (match_metas ((plain_technology ''X'' [] [])
                \<lparr>meta := [(''generator'', [any_pattern ''WordPress'' ''Generator''])]\<rparr>)
              [(''generator'', [''WordPress 5''])])"
proof -
  let ?raw = "[(''Server'', JStr ''nginx''), (''X-Powered-By'', JStr ''php'')]"
  let ?t = two_header_technology
  let ?pairs = "[(''Server'', [''a'']), (''x-powered-by'', [''b''])]"
  let ?rawm = "[(''Main'', JStr ''a''), (''Server'', JStr ''b'')]"
  let ?raws = "[(''Server'', JStr ''a''), (''SERVER'', JStr ''b'')]"
  let ?rawc = "[(''SessionID'', JStr ''.*'')]"
  let ?tc = "(plain_technology ''X'' [] []) \<lparr>cookies := [(''sessionid'', [any_pattern ''.*'' ''SessionID''])]\<rparr>"
  let ?cs = "[(''SESSIONID'', [''1''])]"
  let ?rawg = "[(''Generator'', JStr ''WordPress'')]"
  let ?tg = "(plain_technology ''X'' [] []) \<lparr>meta := [(''generator'', [any_pattern ''WordPress'' ''Generator''])]\<rparr>"
  let ?ms = "[(''generator'', [''WordPress 5''])]"
  note main = keyed_matching_key_case[where parse = any_pattern and raw = ?raw]
  note mainm = keyed_matching_key_case[where parse = any_pattern and raw = ?rawm]
  note mainc = keyed_matching_key_case[where parse = any_pattern and raw = ?rawc]
  note maing = keyed_matching_key_case[where parse = any_pattern and raw = ?rawg]
  note c1 = conjunct1
  note c2 = conjunct2
  have h3: "distinct (map lower (map fst ?raw)) \<and> ''main'' \<notin> lower ` fst ` set ?raw \<and> ?raw \<noteq> []"
    by (simp add: lower_eval)
  note r3 = main[THEN c2, THEN c2, THEN c1, THEN mp, OF h3]
  have eff: "effective_entries lower ?raw = ?raw" using r3 by (rule conjunct1)
  have ld: "transform_patterns any_pattern (JDict ?raw) False = TDict (headers ?t)"
    using r3[THEN conjunct2]
    by (simp add: lower_eval two_header_technology_def plain_technology_def)
  have nomain: "''main'' \<notin> lower ` fst ` set ?raw"
    using main[THEN c1, THEN spec, THEN mp, OF ld] by blast
  have h7: "transform_patterns any_pattern (JDict ?raw) False = TDict (headers ?t) \<and>
            distinct (map fst ?pairs)"
    using ld by simp
  note iff7 = main[THEN c2, THEN c2, THEN c2, THEN c2, THEN c2, THEN c2, THEN c1,
                   THEN spec, THEN spec, THEN spec, THEN mp, OF h7]
  have "\<exists>k_r val ptrn k_s vs v.
          (k_r, val) \<in> set (effective_entries lower ?raw) \<and> ptrn \<in> set (to_list val) \<and>
          (k_s, vs) \<in> set ?pairs \<and> k_s = lower k_r \<and> v \<in> set vs \<and>
          p_regex (any_pattern ptrn k_r) v \<noteq> None \<and>
          pattern_hit ?t (any_pattern ''php'' ''X-Powered-By'') ''b'' = pattern_hit ?t (any_pattern ptrn k_r) v"
    unfolding eff
    by (intro exI[of _ "''X-Powered-By''"] exI[of _ "JStr ''php''"] exI[of _ "''php''"]
          exI[of _ "''x-powered-by''"] exI[of _ "[''b'']"] exI[of _ "''b''"])
       (simp add: lower_eval any_pattern_def dot_star_def)
  then have pos: "pattern_hit ?t (any_pattern ''php'' ''X-Powered-By'') ''b'' \<in> set (match_headers ?t ?pairs)"
    by (rule iff7[THEN iffD2])
  have "\<not> (\<exists>k_r val ptrn k_s vs v.
          (k_r, val) \<in> set (effective_entries lower ?raw) \<and> ptrn \<in> set (to_list val) \<and>
          (k_s, vs) \<in> set ?pairs \<and> k_s = lower k_r \<and> v \<in> set vs \<and>
          p_regex (any_pattern ptrn k_r) v \<noteq> None \<and>
          pattern_hit ?t (any_pattern ''nginx'' ''Server'') ''a'' = pattern_hit ?t (any_pattern ptrn k_r) v)"
    unfolding eff by (auto simp: lower_eval pattern_hit_def any_pattern_def dest: arg_cong[where f = p_value])
  then have neg: "pattern_hit ?t (any_pattern ''nginx'' ''Server'') ''a'' \<notin> set (match_headers ?t ?pairs)"
    using iff7 by blast
  have hm: "''main'' \<in> lower ` fst ` set ?rawm" by (simp add: lower_eval)
  have exm: "\<exists>ps. transform_patterns any_pattern (JDict ?rawm) False = TList ps"
    using mainm[THEN c2, THEN c1, THEN mp, OF hm] .
  have evm: "transform_patterns any_pattern (JDict ?rawm) False = TList [any_pattern ''a'' ''Main'']"
    by (simp add: transform_patterns_def lower_eval)
  have evs: "transform_patterns any_pattern (JDict ?raws) False = TDict [(''server'', [any_pattern ''b'' ''SERVER''])]"
    by (simp add: transform_patterns_def lower_eval)
  have effs: "effective_entries lower ?raws = [(''SERVER'', JStr ''b'')]"
    by (simp add: lower_eval)
  have "\<exists>(k_s, vs')\<in>set (effective_entries lower ?cs). lower k_s = ''sessionid'' \<and> [''1''] = vs'"
    by (simp add: lower_eval)
  then have ck: "map_of (pairs_local Cookies ?cs) ''sessionid'' = Some [''1'']"
    by (rule main[THEN c2, THEN c2, THEN c2, THEN c1, THEN spec, THEN spec, THEN spec, THEN iffD2])
  have h6: "transform_patterns any_pattern (JDict ?rawc) False = TDict (cookies ?tc)"
    by (simp add: transform_patterns_def lower_eval plain_technology_def)
  note iff6 = mainc[THEN c2, THEN c2, THEN c2, THEN c2, THEN c2, THEN c1,
                    THEN spec, THEN spec, THEN spec, THEN mp, OF h6]
  have "\<exists>k_r val ptrn k_s vs v.
          (k_r, val) \<in> set (effective_entries lower ?rawc) \<and> ptrn \<in> set (to_list val) \<and>
          (k_s, vs) \<in> set (effective_entries lower ?cs) \<and> lower k_s = lower k_r \<and> v \<in> set vs \<and>
          p_regex (any_pattern ptrn k_r) v \<noteq> None \<and>
          pattern_hit ?tc (any_pattern ''.*'' ''SessionID'') ''1'' = pattern_hit ?tc (any_pattern ptrn k_r) v"
    by (intro exI[of _ "''SessionID''"] exI[of _ "JStr ''.*''"] exI[of _ "''.*''"]
          exI[of _ "''SESSIONID''"] exI[of _ "[''1'']"] exI[of _ "''1''"])
       (simp add: lower_eval any_pattern_def dot_star_def)
  then have cpos: "pattern_hit ?tc (any_pattern ''.*'' ''SessionID'') ''1'' \<in> set (match_cookies ?tc ?cs)"
    by (rule iff6[THEN iffD2])
  have h8: "transform_patterns any_pattern (JDict ?rawg) False = TDict (meta ?tg) \<and>
            distinct (map fst ?ms)"
    by (simp add: transform_patterns_def lower_eval plain_technology_def)
  note iff8 = maing[THEN c2, THEN c2, THEN c2, THEN c2, THEN c2, THEN c2, THEN c2,
                    THEN spec, THEN spec, THEN spec, THEN mp, OF h8]
  have "\<exists>k_r val ptrn k_s vs v.
          (k_r, val) \<in> set (effective_entries lower ?rawg) \<and> ptrn \<in> set (to_list val) \<and>
          (k_s, vs) \<in> set ?ms \<and> k_s = lower k_r \<and> v \<in> set vs \<and>
          p_regex (any_pattern ptrn k_r) v \<noteq> None \<and>
          pattern_hit ?tg (any_pattern ''WordPress'' ''Generator'') ''WordPress 5'' =
            pattern_hit ?tg (any_pattern ptrn k_r) v"
    by (intro exI[of _ "''Generator''"] exI[of _ "JStr ''WordPress''"] exI[of _ "''WordPress''"]
          exI[of _ "''generator''"] exI[of _ "[''WordPress 5'']"] exI[of _ "''WordPress 5''"])
       (simp add: lower_eval any_pattern_def dot_star_def)
  then have mpos: "pattern_hit ?tg (any_pattern ''WordPress'' ''Generator'') ''WordPress 5''
                     \<in> set (match_metas ?tg ?ms)"
    by (rule iff8[THEN iffD2])
  show ?thesis using ld pos neg nomain evm exm evs effs ck cpos mpos by (intro conjI)
qed


text \<open>
  The claim as stated fails for headers: the rule key \<^verbatim>\<open>Server\<close> does not match the
  identical supplied key \<^verbatim>\<open>Server\<close>, and it matches the supplied key \<^verbatim>\<open>server\<close>.
\<close>

theorem header_key_identical_case_no_match:
  "transform_patterns any_pattern (JDict [(''Server'', JStr ''.*'')]) False =
     TDict (headers server_technology) \<and>
   match_headers server_technology [(''Server'', [''nginx''])] = [] \<and>
   match_headers server_technology [(''server'', [''nginx''])] =
     [\<lparr>pm_technology = server_technology, pm_pattern = any_pattern ''.*'' ''Server'',
       pm_version = []\<rparr>]"
  by (simp add: transform_patterns_def lower_Server server_technology_def match_headers_def
      match_pairs_def pairs_local_def any_pattern_def dot_star_def resolve_version_def
      plain_technology_def)


end
